theory Spec2Isabelle
  imports Complex_Main "HOL-Library.Sublist"
begin

section \<open>Tree nodes and the collapse state\<close>

text \<open>
  A tree node of the mind map is the plain object
  \<^verbatim>\<open>{ id, text, pinned?, children?, _children? }\<close>.
  The two optional arrays are modelled as \<open>node list option\<close>: \<open>None\<close> is the absent
  (\<^verbatim>\<open>undefined\<close>) field and \<open>Some []\<close> the empty array, which JavaScript treats as a
  true value in \<^verbatim>\<open>if (!d.children)\<close>. The field \<^verbatim>\<open>_children\<close> is called
  \<open>hiddenChildren\<close>; a missing \<^verbatim>\<open>pinned\<close> flag is \<open>False\<close>.
\<close>

datatype node =
  Node (node_id: string) (node_text: string) (pinned: bool)
       (children: "node list option") (hiddenChildren: "node list option")

text \<open>The elements of an optional array; an absent array has none.\<close>

fun kids :: "node list option \<Rightarrow> node list" where
  "kids None = []"
| "kids (Some cs) = cs"

text \<open>
  \<^verbatim>\<open>function collapse(d) { if (!d.children) return;
     d._children = d.children; d.children = undefined; }\<close>
\<close>

fun collapse :: "node \<Rightarrow> node" where
  "collapse (Node i t p None h) = Node i t p None h"
| "collapse (Node i t p (Some cs) h) = Node i t p None (Some cs)"

text \<open>
  The callback that \<^verbatim>\<open>expandOne\<close> runs on every revealed child:
  \<^verbatim>\<open>(child) => { if (child.children) { child._children = child.children;
     child.children = undefined; } }\<close>
\<close>

fun recollapse :: "node \<Rightarrow> node" where
  "recollapse (Node i t p c h) =
     (if c \<noteq> None then Node i t p None c else Node i t p c h)"

text \<open>
  \<^verbatim>\<open>function expandOne(d) { if (!d._children) return;
     d.children = d._children; d._children = undefined;
     d.children.forEach(...); }\<close>
\<close>

fun expandOne :: "node \<Rightarrow> node" where
  "expandOne (Node i t p c None) = Node i t p c None"
| "expandOne (Node i t p c (Some hs)) = Node i t p (Some (map recollapse hs)) None"

text \<open>\<^verbatim>\<open>hasChildren\<close> and \<^verbatim>\<open>isCollapsed\<close>, on the data object of a node.\<close>

definition hasChildren :: "node \<Rightarrow> bool" where
  "hasChildren d = (case children d of None \<Rightarrow> False | Some cs \<Rightarrow> cs \<noteq> [])"

definition isCollapsed :: "node \<Rightarrow> bool" where
  "isCollapsed d =
     (children d = None \<and> (case hiddenChildren d of None \<Rightarrow> False | Some hs \<Rightarrow> hs \<noteq> []))"

text \<open>
  The invariant of the data model: a node never has both fields set. \<open>inv_tree\<close> asks it
  of every node of a tree, visible or hidden.
\<close>

definition inv_node :: "node \<Rightarrow> bool" where
  "inv_node d = (children d = None \<or> hiddenChildren d = None)"

lemma size_kids:
  assumes "x \<in> set (kids c)"
  shows "size x \<le> size_option (size_list size) c"
proof (cases c)
  case None
  with assms show ?thesis by simp
next
  case (Some cs)
  with assms have "x \<in> set cs" by simp
  then have "size x \<le> size_list size cs" by (rule size_list_estimation') simp
  with Some show ?thesis by simp
qed

lemma size_kids_children [termination_simp]:
  "x \<in> set (kids c) \<Longrightarrow> size x < Suc (size_option (size_list size) c + k)"
  using size_kids [of x c] by simp

lemma size_kids_hidden [termination_simp]:
  "x \<in> set (kids h) \<Longrightarrow> size x < Suc (k + size_option (size_list size) h)"
  using size_kids [of x h] by simp

fun inv_tree :: "node \<Rightarrow> bool" where
  "inv_tree (Node i t p c h) =
     ((c = None \<or> h = None) \<and> list_all inv_tree (kids c) \<and> list_all inv_tree (kids h))"

text \<open>
  What a tree holds, whatever the collapse state: the node's own fields and the stored
  subtrees of both arrays, in order.
\<close>

datatype content = Content string string bool "content list"

fun content_of :: "node \<Rightarrow> content" where
  "content_of (Node i t p c h) = Content i t p (map content_of (kids c @ kids h))"

section \<open>The hierarchy of visible nodes\<close>

text \<open>
  A place in a tree is the list of steps that leads to it from the root: the index of a
  child in the \<^verbatim>\<open>children\<close> array, or in the \<^verbatim>\<open>_children\<close> array. Places stand for
  object references: two nodes with equal fields at different places are different
  nodes.
\<close>

datatype step = Child nat | Hid nat

fun node_at :: "node \<Rightarrow> step list \<Rightarrow> node option" where
  "node_at d [] = Some d"
| "node_at d (Child i # r) =
     (case children d of None \<Rightarrow> None
      | Some cs \<Rightarrow> if i < length cs then node_at (cs ! i) r else None)"
| "node_at d (Hid i # r) =
     (case hiddenChildren d of None \<Rightarrow> None
      | Some hs \<Rightarrow> if i < length hs then node_at (hs ! i) r else None)"

text \<open>
  The handlers change data objects in place, and the tree is what the caller owns:
  \<open>update_at r f d\<close> is the tree \<open>d\<close> after \<open>f\<close> has changed the node at place \<open>r\<close>.
\<close>

fun update_at :: "step list \<Rightarrow> (node \<Rightarrow> node) \<Rightarrow> node \<Rightarrow> node" where
  "update_at [] f d = f d"
| "update_at (Child k # r) f (Node i t p c h) =
     (case c of
        None \<Rightarrow> Node i t p c h
      | Some cs \<Rightarrow>
          if k < length cs then Node i t p (Some (cs[k := update_at r f (cs ! k)])) h
          else Node i t p c h)"
| "update_at (Hid k # r) f (Node i t p c h) =
     (case h of
        None \<Rightarrow> Node i t p c h
      | Some hs \<Rightarrow>
          if k < length hs then Node i t p c (Some (hs[k := update_at r f (hs ! k)]))
          else Node i t p c h)"

text \<open>
  The click on the toggle of the node at place \<open>r\<close>, before the render that follows:
  \<^verbatim>\<open>if (n.data.children) collapse(n.data); else expandOne(n.data);\<close>
\<close>

definition toggle_click :: "step list \<Rightarrow> node \<Rightarrow> node" where
  "toggle_click r d =
     update_at r (\<lambda>x. if children x \<noteq> None then collapse x else expandOne x) d"

text \<open>
  The wrapper that the hierarchy builds around a data object: the data, the depth, and
  the reference to the parent wrapper (absent for the root). \<open>h_ref\<close> is the wrapper's
  own place, its identity.
\<close>

record hnode =
  h_data :: node
  h_depth :: nat
  h_ref :: "step list"
  h_parent :: "step list option"

text \<open>
  Modelled from the spec: the tree flattener is \<^verbatim>\<open>d3.hierarchy(data)\<close> with
  \<^verbatim>\<open>root.descendants()\<close> and \<^verbatim>\<open>root.links()\<close>, which belong to the d3 library and are
  missing from the sources. The hierarchy reads the \<^verbatim>\<open>children\<close> field of each data
  object and nothing else, wraps every element of that array, and lists the wrappers in a
  deterministic traversal (d3 goes breadth first); there is one link for each wrapper
  other than the root, from its parent to it.
\<close>

definition h_children :: "hnode \<Rightarrow> hnode list" where
  "h_children n =
     map (\<lambda>(i, c). \<lparr>h_data = c, h_depth = h_depth n + 1,
                     h_ref = h_ref n @ [Child i], h_parent = Some (h_ref n)\<rparr>)
         (enumerate 0 (kids (children (h_data n))))"

text \<open>The measure for the termination of the traversal.\<close>

definition queue_size :: "hnode list \<Rightarrow> nat" where
  "queue_size q = sum_list (map (\<lambda>n. size (h_data n)) q)"

lemma sum_size_kids: "sum_list (map size (kids c)) \<le> size_option (size_list size) c"
  by (cases c) (simp_all add: size_list_conv_sum_list)

lemma queue_size_h_children: "queue_size (h_children n) < size (h_data n)"
proof -
  have "map (\<lambda>m. size (h_data m)) (h_children n) = map size (kids (children (h_data n)))"
    by (simp add: h_children_def map_idI comp_def case_prod_unfold
        flip: map_map [of size snd, unfolded comp_def])
  then have "queue_size (h_children n) \<le> size_option (size_list size) (children (h_data n))"
    by (simp add: queue_size_def sum_size_kids)
  also have "\<dots> < size (h_data n)"
    by (cases "h_data n") simp
  finally show ?thesis .
qed

text \<open>
  Modelled from the spec: the traversal of \<^verbatim>\<open>root.descendants()\<close> (d3, missing from the
  sources), breadth first with a queue of wrappers; a wrapper is listed and its child
  wrappers join the end of the queue.
\<close>

function bfs :: "hnode list \<Rightarrow> hnode list" where
  "bfs [] = []"
| "bfs (n # q) = n # bfs (q @ h_children n)"
  by pat_completeness auto
termination
proof (relation "measure queue_size")
  show "wf (measure queue_size)" by simp
next
  fix n q
  show "(q @ h_children n, n # q) \<in> measure queue_size"
    using queue_size_h_children [of n] by (simp add: queue_size_def)
qed

text \<open>
  Modelled from the spec: \<^verbatim>\<open>d3.hierarchy(data)\<close>, \<^verbatim>\<open>root.descendants()\<close> and
  \<^verbatim>\<open>root.links()\<close> (d3, missing from the sources). The root wrapper has depth 0 and no
  parent; a link is the pair of the parent's and the wrapper's reference.
\<close>

definition h_root :: "node \<Rightarrow> hnode" where
  "h_root d = \<lparr>h_data = d, h_depth = 0, h_ref = [], h_parent = None\<rparr>"

definition descendants :: "node \<Rightarrow> hnode list" where
  "descendants d = bfs [h_root d]"

definition links :: "node \<Rightarrow> (step list \<times> step list) list" where
  "links d =
     concat (map (\<lambda>n. case h_parent n of None \<Rightarrow> [] | Some p \<Rightarrow> [(p, h_ref n)])
                 (descendants d))"

text \<open>The places of the visible nodes.\<close>

definition visible :: "node \<Rightarrow> step list set" where
  "visible d = h_ref ` set (descendants d)"

text \<open>
  Notions used to reason about the traversal: the wrapper reached from a wrapper by a list
  of child indices, the one-step relation of the hierarchy, and lists of places of which
  none is a prefix of another.
\<close>

fun reach :: "hnode \<Rightarrow> nat list \<Rightarrow> hnode option" where
  "reach n [] = Some n"
| "reach n (i # is) = (if i < length (h_children n) then reach (h_children n ! i) is else None)"

definition hrel :: "(hnode \<times> hnode) set" where
  "hrel = {(a, b). b \<in> set (h_children a)}"

definition antichain :: "step list list \<Rightarrow> bool" where
  "antichain rs = (distinct rs \<and> (\<forall>a \<in> set rs. \<forall>b \<in> set rs. prefix a b \<longrightarrow> a = b))"

section \<open>The box collision force\<close>

text \<open>
  A simulation node is the hierarchy wrapper with the fields the simulation adds. The
  model keeps the reference to the data object (\<^verbatim>\<open>n.data\<close> is the node at place
  \<open>sn_ref n\<close> of the tree), the id, the position, and the fixed position, where \<open>None\<close>
  is \<^verbatim>\<open>null\<close> or absent. Coordinates are real numbers: the rounding of IEEE doubles is
  not modelled.
\<close>

record simnode =
  sn_ref :: "step list"
  sn_id :: string
  sn_x :: real
  sn_y :: real
  sn_fx :: "real option"
  sn_fy :: "real option"

record box =
  box_w :: real
  box_h :: real

text \<open>
  The document is a parameter: \<open>doc i\<close> is the bounding box of the element with id \<open>i\<close>,
  or \<open>None\<close> when \<^verbatim>\<open>document.getElementById(i)\<close> finds nothing.

  \<^verbatim>\<open>function measure(node) { if (measured.has(node.id)) return;
     const el = document.getElementById(node.id); if (!el) return;
     const rect = el.getBoundingClientRect();
     measured.set(node.id, { w: rect.width, h: rect.height }); }\<close>
\<close>

definition measure_node :: "(string \<rightharpoonup> box) \<Rightarrow> (string \<rightharpoonup> box) \<Rightarrow> simnode \<Rightarrow> (string \<rightharpoonup> box)" where
  "measure_node doc measured n =
     (if measured (sn_id n) \<noteq> None then measured
      else case doc (sn_id n) of
             None \<Rightarrow> measured
           | Some rect \<Rightarrow> measured(sn_id n \<mapsto> \<lparr>box_w = box_w rect, box_h = box_h rect\<rparr>))"

text \<open>\<^verbatim>\<open>v || 0.001\<close> on numbers: the right operand replaces a zero.\<close>

definition or_else :: "real \<Rightarrow> real \<Rightarrow> real" where
  "or_else v e = (if v = 0 then e else v)"

text \<open>
  The body of the two nested loops of \<^verbatim>\<open>force(alpha)\<close> for the indices \<open>i < j\<close>. The
  nodes are objects changed in place; the model writes them back into the array.
\<close>

definition collide_pair ::
  "real \<Rightarrow> real \<Rightarrow> (string \<rightharpoonup> box) \<Rightarrow> simnode list \<Rightarrow> nat \<times> nat \<Rightarrow> simnode list" where
  "collide_pair padding alpha measured ns ij =
     (let i = fst ij; j = snd ij; a = ns ! i; b = ns ! j in
      case measured (sn_id a) of
        None \<Rightarrow> ns
      | Some A \<Rightarrow>
         (case measured (sn_id b) of
            None \<Rightarrow> ns
          | Some B \<Rightarrow>
             (let dx = or_else (sn_x b - sn_x a) 0.001;
                  dy = or_else (sn_y b - sn_y a) 0.001;
                  minX = (box_w A + box_w B) / 2 + padding;
                  minY = (box_h A + box_h B) / 2 + padding;
                  overlapX = minX - \<bar>dx\<bar>;
                  overlapY = minY - \<bar>dy\<bar>
              in if overlapX > 0 \<and> overlapY > 0 then
                   if overlapX < overlapY then
                     (let delta = overlapX * sgn dx * alpha
                      in ns[i := a\<lparr>sn_x := sn_x a - delta / 2\<rparr>,
                            j := b\<lparr>sn_x := sn_x b + delta / 2\<rparr>])
                   else
                     (let delta = overlapY * sgn dy * alpha
                      in ns[i := a\<lparr>sn_y := sn_y a - delta / 2\<rparr>,
                            j := b\<lparr>sn_y := sn_y b + delta / 2\<rparr>])
                 else ns)))"

text \<open>
  \<^verbatim>\<open>for (let i = 0; i < n; i++) for (let j = i + 1; j < n; j++)\<close>: the index pairs in
  the order the loops visit them.
\<close>

definition pairs :: "nat \<Rightarrow> (nat \<times> nat) list" where
  "pairs n = concat (map (\<lambda>i. map (\<lambda>j. (i, j)) [i + 1..<n]) [0..<n])"

text \<open>
  The state of the closure returned by \<^verbatim>\<open>boxCollide(padding)\<close>: the node array captured
  by \<^verbatim>\<open>force.initialize\<close> and the cache of measured sizes, which \<^verbatim>\<open>initialize\<close> clears.
\<close>

record collide_state =
  simNodes :: "simnode list"
  measured :: "string \<rightharpoonup> box"

definition initialize :: "simnode list \<Rightarrow> collide_state" where
  "initialize nodesArray = \<lparr>simNodes = nodesArray, measured = Map.empty\<rparr>"

definition force :: "real \<Rightarrow> (string \<rightharpoonup> box) \<Rightarrow> real \<Rightarrow> collide_state \<Rightarrow> collide_state" where
  "force padding doc alpha st =
     (let m = fold (\<lambda>n m. measure_node doc m n) (simNodes st) (measured st)
      in \<lparr>simNodes = fold (\<lambda>ij ns. collide_pair padding alpha m ns ij)
                          (pairs (length (simNodes st))) (simNodes st),
          measured = m\<rparr>)"

text \<open>
  During the loops over the index pairs \<open>ps\<close>, starting from the array \<open>ns\<close>, no pair
  other than \<open>(i, j)\<close> moves the node with index \<open>i\<close> or the node with index \<open>j\<close>: the
  step of every other pair leaves both as they are at that moment.
\<close>

fun undisturbed ::
  "real \<Rightarrow> real \<Rightarrow> (string \<rightharpoonup> box) \<Rightarrow> nat \<Rightarrow> nat \<Rightarrow> (nat \<times> nat) list \<Rightarrow> simnode list \<Rightarrow> bool" where
  "undisturbed padding al m i j [] ns = True"
| "undisturbed padding al m i j (p # ps) ns =
     ((p = (i, j) \<or>
       (collide_pair padding al m ns p ! i = ns ! i \<and> collide_pair padding al m ns p ! j = ns ! j)) \<and>
      undisturbed padding al m i j ps (collide_pair padding al m ns p))"

text \<open>
  The overlap of two boxes on an axis, from the positions the nodes really have: the
  required separation minus the distance of the centres.
\<close>

definition overlap_x :: "real \<Rightarrow> box \<Rightarrow> box \<Rightarrow> simnode \<Rightarrow> simnode \<Rightarrow> real" where
  "overlap_x padding A B a b = (box_w A + box_w B) / 2 + padding - \<bar>sn_x b - sn_x a\<bar>"

definition overlap_y :: "real \<Rightarrow> box \<Rightarrow> box \<Rightarrow> simnode \<Rightarrow> simnode \<Rightarrow> real" where
  "overlap_y padding A B a b = (box_h A + box_h B) / 2 + padding - \<bar>sn_y b - sn_y a\<bar>"

text \<open>
  Names for the local quantities of the loop body: the centre deltas \<^verbatim>\<open>dx\<close>, \<^verbatim>\<open>dy\<close>
  with the replacement of a zero, the required separations \<^verbatim>\<open>minX\<close>, \<^verbatim>\<open>minY\<close>, and the
  overlaps \<^verbatim>\<open>overlapX\<close>, \<^verbatim>\<open>overlapY\<close> that the code compares.
\<close>

definition deltaX :: "simnode \<Rightarrow> simnode \<Rightarrow> real" where
  "deltaX a b = or_else (sn_x b - sn_x a) 0.001"

definition deltaY :: "simnode \<Rightarrow> simnode \<Rightarrow> real" where
  "deltaY a b = or_else (sn_y b - sn_y a) 0.001"

definition minSepX :: "real \<Rightarrow> box \<Rightarrow> box \<Rightarrow> real" where
  "minSepX padding A B = (box_w A + box_w B) / 2 + padding"

definition minSepY :: "real \<Rightarrow> box \<Rightarrow> box \<Rightarrow> real" where
  "minSepY padding A B = (box_h A + box_h B) / 2 + padding"

definition overlapX :: "real \<Rightarrow> box \<Rightarrow> box \<Rightarrow> simnode \<Rightarrow> simnode \<Rightarrow> real" where
  "overlapX padding A B a b = minSepX padding A B - \<bar>deltaX a b\<bar>"

definition overlapY :: "real \<Rightarrow> box \<Rightarrow> box \<Rightarrow> simnode \<Rightarrow> simnode \<Rightarrow> real" where
  "overlapY padding A B a b = minSepY padding A B - \<bar>deltaY a b\<bar>"

section \<open>Configuration of the render entry point\<close>

text \<open>
  The \<^verbatim>\<open>options\<close> argument is an object in which every property may be missing: \<open>None\<close>
  is a property that is not there. \<^verbatim>\<open>mindgen(data)\<close> without a second argument takes
  the default \<^verbatim>\<open>options = {}\<close>. The container is a selector string.
\<close>

record options =
  opt_container :: "string option"
  opt_margin :: "real option"
  opt_linkDistance :: "real option"
  opt_linkStrength :: "real option"
  opt_charge :: "real option"
  opt_centerStrength :: "real option"
  opt_xStrength :: "real option"
  opt_yStrength :: "real option"
  opt_alphaDecay :: "real option"
  opt_velocityDecay :: "real option"
  opt_boundsPadding :: "real option"

definition no_options :: options where
  "no_options = \<lparr>opt_container = None, opt_margin = None, opt_linkDistance = None,
     opt_linkStrength = None, opt_charge = None, opt_centerStrength = None,
     opt_xStrength = None, opt_yStrength = None, opt_alphaDecay = None,
     opt_velocityDecay = None, opt_boundsPadding = None\<rparr>"

record opts =
  container :: string
  margin :: real
  linkDistance :: real
  linkStrength :: real
  charge :: real
  centerStrength :: real
  xStrength :: real
  yStrength :: real
  alphaDecay :: real
  velocityDecay :: real
  boundsPadding :: real

text \<open>\<^verbatim>\<open>{ ...defaults, ...options }\<close> for one property.\<close>

definition spread :: "'a \<Rightarrow> 'a option \<Rightarrow> 'a" where
  "spread dflt given = (case given of None \<Rightarrow> dflt | Some v \<Rightarrow> v)"

text \<open>
  \<^verbatim>\<open>const opts = { container: "body", margin: 40, linkDistance: 120, linkStrength: 0.2,
     charge: -500, centerStrength: 0.1, xStrength: 0.01, yStrength: 0.01,
     alphaDecay: 0.02, velocityDecay: 0.4, boundsPadding: 10, ...options };\<close>
\<close>

definition resolve_opts :: "options \<Rightarrow> opts" where
  "resolve_opts options =
     \<lparr>container = spread ''body'' (opt_container options),
      margin = spread 40 (opt_margin options),
      linkDistance = spread 120 (opt_linkDistance options),
      linkStrength = spread 0.2 (opt_linkStrength options),
      charge = spread (- 500) (opt_charge options),
      centerStrength = spread 0.1 (opt_centerStrength options),
      xStrength = spread 0.01 (opt_xStrength options),
      yStrength = spread 0.01 (opt_yStrength options),
      alphaDecay = spread 0.02 (opt_alphaDecay options),
      velocityDecay = spread 0.4 (opt_velocityDecay options),
      boundsPadding = spread 10 (opt_boundsPadding options)\<rparr>"

text \<open>
  \<^verbatim>\<open>const container = d3.select(options.container);\<close> The argument of the selection is
  read from the \<^verbatim>\<open>options\<close> argument, not from the resolved \<^verbatim>\<open>opts\<close>.
\<close>

definition select_argument :: "options \<Rightarrow> string option" where
  "select_argument options = opt_container options"

text \<open>
  \<^verbatim>\<open>const width = container.node().clientWidth;\<close> A selection of \<^verbatim>\<open>undefined\<close> holds
  no element, its \<^verbatim>\<open>node()\<close> is \<^verbatim>\<open>null\<close>, and reading a property of \<^verbatim>\<open>null\<close> raises
  a TypeError. \<open>page sel\<close> tells whether the document has an element for the selector.
  The result is the selector of the element the map is rendered into.
\<close>

datatype error = TypeError

definition render_target :: "(string \<Rightarrow> bool) \<Rightarrow> options \<Rightarrow> error + string" where
  "render_target page options =
     (case select_argument options of
        None \<Rightarrow> Inl TypeError
      | Some sel \<Rightarrow> if page sel then Inr sel else Inl TypeError)"

text \<open>
  The values that the simulation is built from (step 5 of \<^verbatim>\<open>mindgen\<close>), the padding of
  the tick handler, and the options of the next render: all read from \<^verbatim>\<open>opts\<close>.
\<close>

record used_settings =
  collision_padding :: real
  link_distance :: real
  link_strength :: real
  many_body_strength :: real
  center_strength :: real
  x_strength :: real
  y_strength :: real
  alpha_decay :: real
  velocity_decay :: real
  bounds_padding :: real

definition simulation_settings :: "options \<Rightarrow> used_settings" where
  "simulation_settings options =
     (let opts = resolve_opts options in
      \<lparr>collision_padding = margin opts,
       link_distance = linkDistance opts,
       link_strength = linkStrength opts,
       many_body_strength = charge opts,
       center_strength = centerStrength opts,
       x_strength = xStrength opts,
       y_strength = yStrength opts,
       alpha_decay = alphaDecay opts,
       velocity_decay = velocityDecay opts,
       bounds_padding = boundsPadding opts\<rparr>)"

section \<open>Pins and the double click on the background\<close>

text \<open>\<^verbatim>\<open>n.data.pinned = false\<close>\<close>

fun unpin :: "node \<Rightarrow> node" where
  "unpin (Node i t p c h) = Node i t False c h"

text \<open>
  The part of the closure of one render that the handlers touch: the tree
  (\<^verbatim>\<open>root.data\<close>), the node array of the render, and the simulation's energy, energy
  target and timer.
\<close>

record render_state =
  tree :: node
  nodes :: "simnode list"
  sim_alpha :: real
  sim_alphaTarget :: real
  sim_running :: bool

text \<open>
  The event of a double click: whether its target has a \<^verbatim>\<open>closest\<close> method, and the id
  of the nearest enclosing element of class \<^verbatim>\<open>node\<close>, if there is one.
\<close>

record click_event =
  has_closest :: bool
  closest_node :: "string option"

text \<open>\<^verbatim>\<open>const isNode = event.target.closest && event.target.closest(".node");\<close>\<close>

definition isNode :: "click_event \<Rightarrow> bool" where
  "isNode ev = (has_closest ev \<and> closest_node ev \<noteq> None)"

text \<open>
  \<^verbatim>\<open>container.on("dblclick", (event) => { ...; if (isNode) return;
     nodes.forEach((n) => { n.data.pinned = false; n.fx = null; n.fy = null; });
     simulation.alpha(0.4).restart(); });\<close>
\<close>

definition release_node :: "simnode \<Rightarrow> simnode" where
  "release_node n = n\<lparr>sn_fx := None, sn_fy := None\<rparr>"

definition container_dblclick :: "click_event \<Rightarrow> render_state \<Rightarrow> render_state" where
  "container_dblclick ev s =
     (if isNode ev then s
      else s\<lparr>tree := fold (\<lambda>n d. update_at (sn_ref n) unpin d) (nodes s) (tree s),
             nodes := map release_node (nodes s),
             sim_alpha := 0.4,
             sim_running := True\<rparr>)"

text \<open>
  The end of a drag of the node with index \<open>k\<close> of the array; \<open>active\<close> is
  \<^verbatim>\<open>event.active\<close>, true when another drag is still going on.
  \<^verbatim>\<open>function dragended(event, n) { if (!event.active) simulation.alphaTarget(0);
     n.data.pinned = true; n.fx = n.x; n.fy = n.y; }\<close>
\<close>

fun pin :: "node \<Rightarrow> node" where
  "pin (Node i t p c h) = Node i t True c h"

definition dragended :: "bool \<Rightarrow> nat \<Rightarrow> render_state \<Rightarrow> render_state" where
  "dragended active k s =
     (let n = nodes s ! k in
      s\<lparr>tree := update_at (sn_ref n) pin (tree s),
        nodes := (nodes s)[k := n\<lparr>sn_fx := Some (sn_x n), sn_fy := Some (sn_y n)\<rparr>],
        sim_alphaTarget := (if active then sim_alphaTarget s else 0)\<rparr>)"

text \<open>
  The node array of a render holds one simulation node for each wrapper of the hierarchy
  of the tree, in the order of \<open>descendants\<close>.
\<close>

definition rendered :: "render_state \<Rightarrow> bool" where
  "rendered s = (map sn_ref (nodes s) = map h_ref (descendants (tree s)))"

section \<open>Further notions and example inputs\<close>

text \<open>No node of the tree has the \<^verbatim>\<open>_children\<close> field set; the same below a node.\<close>

fun no_hidden :: "node \<Rightarrow> bool" where
  "no_hidden (Node i t p c h) = (h = None \<and> list_all no_hidden (kids c))"

definition no_hidden_below :: "node \<Rightarrow> bool" where
  "no_hidden_below d = list_all no_hidden (kids (children d) @ kids (hiddenChildren d))"

definition leaf :: "string \<Rightarrow> node" where
  "leaf i = Node i i False None None"

text \<open>A root with an expanded child that has a child of its own, and a leaf.\<close>

definition family :: node where
  "family = Node ''root'' ''X'' False
     (Some [Node ''a'' ''A'' False (Some [leaf ''g'']) None, leaf ''b'']) None"

text \<open>A root with a collapsed child and an expanded, pinned child.\<close>

definition mixed :: node where
  "mixed = Node ''root'' ''X'' False
     (Some [Node ''a'' ''A'' False None (Some [leaf ''g'']),
            Node ''b'' ''B'' True (Some [leaf ''h'']) None]) None"

text \<open>Boxes, simulation nodes and documents for the examples of the collision force.\<close>

definition tall :: box where
  "tall = \<lparr>box_w = 20, box_h = 100\<rparr>"

definition square :: box where
  "square = \<lparr>box_w = 20, box_h = 20\<rparr>"

definition at_xy :: "string \<Rightarrow> real \<Rightarrow> real \<Rightarrow> simnode" where
  "at_xy i x y = \<lparr>sn_ref = [], sn_id = i, sn_x = x, sn_y = y, sn_fx = None, sn_fy = None\<rparr>"

text \<open>Three nodes in a row: \<open>c\<close> just left of \<open>a\<close>, \<open>b\<close> far to the right of \<open>a\<close>.\<close>

definition trio :: "simnode list" where
  "trio = [at_xy ''a'' 0 0, at_xy ''b'' 19 0, at_xy ''c'' (- 1) 0]"

text \<open>Three nodes of which \<open>c\<close> is far from the other two.\<close>

definition trio_far :: "simnode list" where
  "trio_far = [at_xy ''a'' 0 0, at_xy ''c'' 300 0, at_xy ''b'' 19 0]"

definition duo :: "simnode list" where
  "duo = [at_xy ''a'' 0 0, at_xy ''b'' 19 0]"

definition diagonal :: "simnode list" where
  "diagonal = [at_xy ''a'' 0 0, at_xy ''b'' 5 5]"

definition all_tall :: "string \<rightharpoonup> box" where
  "all_tall = (\<lambda>i. Some tall)"

definition all_square :: "string \<rightharpoonup> box" where
  "all_square = (\<lambda>i. Some square)"

definition only_a :: "string \<rightharpoonup> box" where
  "only_a = (\<lambda>i. if i = ''a'' then Some tall else None)"

text \<open>
  A render with two pinned visible nodes, and a pinned node hidden below the second; a
  double click whose target lies in no node element.
\<close>

definition pinned_pair :: render_state where
  "pinned_pair =
     \<lparr>tree = Node ''root'' ''X'' False
        (Some [Node ''a'' ''A'' True None None,
               Node ''b'' ''B'' True None (Some [Node ''h'' ''H'' True None None])]) None,
      nodes = [\<lparr>sn_ref = [], sn_id = ''root'', sn_x = 50, sn_y = 50, sn_fx = None, sn_fy = None\<rparr>,
               \<lparr>sn_ref = [Child 0], sn_id = ''a'', sn_x = 10, sn_y = 20,
                sn_fx = Some 10, sn_fy = Some 20\<rparr>,
               \<lparr>sn_ref = [Child 1], sn_id = ''b'', sn_x = 80, sn_y = 90,
                sn_fx = Some 80, sn_fy = Some 90\<rparr>],
      sim_alpha = 0, sim_alphaTarget = 0, sim_running = False\<rparr>"

text \<open>
  The same tree before any drag or collapse, all of it visible, and its render.
\<close>

definition open_tree :: node where
  "open_tree = Node ''root'' ''X'' False
     (Some [Node ''a'' ''A'' False None None,
            Node ''b'' ''B'' False (Some [Node ''h'' ''H'' False None None]) None]) None"

definition all_open :: render_state where
  "all_open =
     \<lparr>tree = open_tree,
      nodes = [\<lparr>sn_ref = [], sn_id = ''root'', sn_x = 50, sn_y = 50, sn_fx = None, sn_fy = None\<rparr>,
               \<lparr>sn_ref = [Child 0], sn_id = ''a'', sn_x = 10, sn_y = 20, sn_fx = None, sn_fy = None\<rparr>,
               \<lparr>sn_ref = [Child 1], sn_id = ''b'', sn_x = 80, sn_y = 90, sn_fx = None, sn_fy = None\<rparr>,
               \<lparr>sn_ref = [Child 1, Child 0], sn_id = ''h'', sn_x = 85, sn_y = 95,
                sn_fx = None, sn_fy = None\<rparr>],
      sim_alpha = 0, sim_alphaTarget = 0, sim_running = False\<rparr>"

definition background :: click_event where
  "background = \<lparr>has_closest = True, closest_node = None\<rparr>"

section \<open>Properties of the hierarchy\<close>

lemma length_h_children: "length (h_children n) = length (kids (children (h_data n)))"
  by (simp add: h_children_def)

lemma nth_h_children:
  "i < length (kids (children (h_data n))) \<Longrightarrow>
   h_children n ! i = \<lparr>h_data = kids (children (h_data n)) ! i, h_depth = h_depth n + 1,
                       h_ref = h_ref n @ [Child i], h_parent = Some (h_ref n)\<rparr>"
  by (simp add: h_children_def nth_enumerate_eq)

lemma set_bfs: "set (bfs q) = hrel\<^sup>* `` set q"
proof (induction q rule: bfs.induct)
  case 1
  show ?case by simp
next
  case (2 n q)
  have "hrel\<^sup>* `` {n} = insert n (hrel\<^sup>* `` set (h_children n))"
  proof -
    have "hrel `` {n} = set (h_children n)" by (auto simp: hrel_def)
    moreover have "hrel\<^sup>* `` {n} = insert n (hrel\<^sup>* `` (hrel `` {n}))"
      by (auto elim: converse_rtranclE intro: converse_rtrancl_into_rtrancl)
    ultimately show ?thesis by simp
  qed
  with 2 show ?case by (auto simp: Image_Un)
qed

lemma reach_rtrancl: "reach n is = Some m \<Longrightarrow> (n, m) \<in> hrel\<^sup>*"
proof (induction "is" arbitrary: n)
  case Nil
  then show ?case by simp
next
  case (Cons i "is")
  then have i: "i < length (h_children n)" and r: "reach (h_children n ! i) is = Some m"
    by (auto split: if_splits)
  from i have "(n, h_children n ! i) \<in> hrel" by (simp add: hrel_def)
  with Cons.IH [OF r] show ?case by (auto intro: converse_rtrancl_into_rtrancl)
qed

lemma rtrancl_reach: "(n, m) \<in> hrel\<^sup>* \<Longrightarrow> \<exists>is. reach n is = Some m"
proof (induction rule: converse_rtrancl_induct)
  case base
  have "reach m [] = Some m" by simp
  then show ?case ..
next
  case (step a b)
  then obtain "is" where r: "reach b is = Some m" by blast
  from step.hyps(1) have "b \<in> set (h_children a)" by (simp add: hrel_def)
  then obtain i where "i < length (h_children a)" "h_children a ! i = b"
    by (auto simp: in_set_conv_nth)
  with r have "reach a (i # is) = Some m" by simp
  then show ?case ..
qed

lemma set_bfs_reach: "set (bfs q) = {m. \<exists>n \<in> set q. \<exists>is. reach n is = Some m}"
proof (intro set_eqI iffI)
  fix m
  assume "m \<in> set (bfs q)"
  then obtain n where "n \<in> set q" "(n, m) \<in> hrel\<^sup>*" by (auto simp: set_bfs)
  with rtrancl_reach [of n m] show "m \<in> {m. \<exists>n \<in> set q. \<exists>is. reach n is = Some m}" by blast
next
  fix m
  assume "m \<in> {m. \<exists>n \<in> set q. \<exists>is. reach n is = Some m}"
  then obtain n "is" where "n \<in> set q" "reach n is = Some m" by blast
  with reach_rtrancl [of n "is" m] show "m \<in> set (bfs q)" by (auto simp: set_bfs)
qed

lemma set_descendants: "set (descendants d) = {m. \<exists>is. reach (h_root d) is = Some m}"
  unfolding descendants_def set_bfs_reach by simp

lemma reach_fields:
  "reach n is = Some m \<Longrightarrow>
     h_ref m = h_ref n @ map Child is \<and> h_depth m = h_depth n + length is \<and>
     node_at (h_data n) (map Child is) = Some (h_data m) \<and>
     h_parent m = (if is = [] then h_parent n else Some (h_ref n @ map Child (butlast is)))"
proof (induction "is" arbitrary: n)
  case Nil
  then show ?case by simp
next
  case (Cons i "is")
  then have i: "i < length (h_children n)" and r: "reach (h_children n ! i) is = Some m"
    by (auto split: if_splits)
  from i have k: "i < length (kids (children (h_data n)))" by (simp add: length_h_children)
  then obtain cs where cs: "children (h_data n) = Some cs" "i < length cs"
    by (cases "children (h_data n)") auto
  from Cons.IH [OF r] k cs show ?case
    by (simp add: nth_h_children)
qed

lemma node_at_reach:
  "node_at (h_data n) (map Child is) = Some d \<Longrightarrow> \<exists>m. reach n is = Some m"
proof (induction "is" arbitrary: n)
  case Nil
  then show ?case by simp
next
  case (Cons i "is")
  then obtain cs where cs: "children (h_data n) = Some cs" "i < length cs"
    and at: "node_at (cs ! i) (map Child is) = Some d"
    by (auto split: option.splits if_splits)
  from cs have "h_data (h_children n ! i) = cs ! i" by (simp add: nth_h_children)
  with at Cons.IH [of "h_children n ! i"] obtain m where "reach (h_children n ! i) is = Some m"
    by auto
  with cs show ?case by (simp add: length_h_children)
qed

lemma visible_iff:
  "p \<in> visible d \<longleftrightarrow> (\<exists>is. p = map Child is \<and> node_at d p \<noteq> None)"
proof
  assume "p \<in> visible d"
  then obtain m "is" where "reach (h_root d) is = Some m" "p = h_ref m"
    by (auto simp: visible_def set_descendants)
  with reach_fields [of "h_root d" "is" m] show "\<exists>is. p = map Child is \<and> node_at d p \<noteq> None"
    by (auto simp: h_root_def)
next
  assume "\<exists>is. p = map Child is \<and> node_at d p \<noteq> None"
  then obtain "is" x where p: "p = map Child is" and "node_at d (map Child is) = Some x" by auto
  then have "node_at (h_data (h_root d)) (map Child is) = Some x" by (simp add: h_root_def)
  then obtain m where m: "reach (h_root d) is = Some m" by (blast dest: node_at_reach)
  then have "m \<in> set (descendants d)" by (auto simp: set_descendants)
  moreover from reach_fields [OF m] p have "h_ref m = p" by (simp add: h_root_def)
  ultimately show "p \<in> visible d" by (auto simp: visible_def)
qed

lemma h_children_refs:
  "map h_ref (h_children n) =
     map (\<lambda>i. h_ref n @ [Child i]) [0..<length (kids (children (h_data n)))]"
  by (rule nth_equalityI) (simp_all add: length_h_children nth_h_children)

lemma antichain_step:
  assumes "antichain (map h_ref (n # q))"
  shows "antichain (map h_ref (q @ h_children n))"
proof -
  let ?r = "h_ref n"
  let ?C = "set (map h_ref (h_children n))"
  let ?Q = "set (map h_ref q)"
  from assms have dq: "distinct (map h_ref q)" and nq: "?r \<notin> ?Q"
    and anti: "\<And>a b. a \<in> insert ?r ?Q \<Longrightarrow> b \<in> insert ?r ?Q \<Longrightarrow> prefix a b \<Longrightarrow> a = b"
    by (auto simp: antichain_def)
  have C: "\<And>c. c \<in> ?C \<Longrightarrow> \<exists>i. c = ?r @ [Child i]"
    by (auto simp: h_children_refs)
  have dc: "distinct (map h_ref (h_children n))"
    by (simp add: h_children_refs distinct_map inj_on_def)
  have no_pre: "\<not> prefix ?r b" if "b \<in> ?Q" for b
  proof
    assume "prefix ?r b"
    with anti [of ?r b] that have "?r = b" by blast
    with that nq show False by blast
  qed
  have no_pre': "\<not> prefix b ?r" if "b \<in> ?Q" for b
  proof
    assume "prefix b ?r"
    with anti [of b ?r] that have "b = ?r" by blast
    with that nq show False by blast
  qed
  have disj: "?Q \<inter> ?C = {}"
  proof (rule ccontr)
    assume "?Q \<inter> ?C \<noteq> {}"
    then obtain c where "c \<in> ?Q" "c \<in> ?C" by blast
    with C obtain i where "c = ?r @ [Child i]" by blast
    then have "prefix ?r c" by simp
    with no_pre \<open>c \<in> ?Q\<close> show False by blast
  qed
  have pre: "a = b" if a: "a \<in> ?Q \<union> ?C" and b: "b \<in> ?Q \<union> ?C" and ab: "prefix a b" for a b
  proof -
    consider "a \<in> ?Q" "b \<in> ?Q" | "a \<in> ?Q" "b \<in> ?C" | "a \<in> ?C" "b \<in> ?Q" | "a \<in> ?C" "b \<in> ?C"
      using a b by blast
    then show ?thesis
    proof cases
      case 1
      with anti ab show ?thesis by blast
    next
      case 2
      with C obtain i where "b = ?r @ [Child i]" by blast
      with ab have "a = b \<or> prefix a ?r" by (auto simp: prefix_snoc)
      with no_pre' 2 show ?thesis by blast
    next
      case 3
      with C obtain i where "a = ?r @ [Child i]" by blast
      with ab have "prefix ?r b" by (auto dest: append_prefixD)
      with no_pre 3 show ?thesis by blast
    next
      case 4
      with C obtain i j where "a = ?r @ [Child i]" "b = ?r @ [Child j]" by blast
      with ab show ?thesis by simp
    qed
  qed
  from dq dc disj pre show ?thesis
    unfolding antichain_def by (simp only: map_append distinct_append set_append) blast
qed

lemma bfs_ref_prefix:
  assumes "m \<in> set (bfs q)"
  shows "\<exists>n \<in> set q. prefix (h_ref n) (h_ref m)"
proof -
  from assms obtain n "is" where n: "n \<in> set q" and "reach n is = Some m"
    by (auto simp: set_bfs_reach)
  then have "h_ref m = h_ref n @ map Child is" by (simp add: reach_fields)
  then have "prefix (h_ref n) (h_ref m)" by simp
  with n show ?thesis ..
qed

lemma distinct_bfs: "antichain (map h_ref q) \<Longrightarrow> distinct (map h_ref (bfs q))"
proof (induction q rule: bfs.induct)
  case 1
  show ?case by simp
next
  case (2 n q)
  from "2.prems" have step: "antichain (map h_ref (q @ h_children n))" by (rule antichain_step)
  have "h_ref n \<notin> h_ref ` set (bfs (q @ h_children n))"
  proof
    assume "h_ref n \<in> h_ref ` set (bfs (q @ h_children n))"
    then obtain m where m: "m \<in> set (bfs (q @ h_children n))" and eq: "h_ref m = h_ref n" by auto
    from bfs_ref_prefix [OF m] obtain k where k: "k \<in> set (q @ h_children n)"
      and pk: "prefix (h_ref k) (h_ref n)" by (auto simp: eq)
    from k consider "k \<in> set q" | "h_ref k \<in> set (map h_ref (h_children n))" by auto
    then show False
    proof cases
      case 1
      with "2.prems" pk have "h_ref k = h_ref n" by (auto simp: antichain_def)
      with 1 "2.prems" show False by (auto simp: antichain_def)
    next
      case 2
      then obtain i where "h_ref k = h_ref n @ [Child i]" by (auto simp: h_children_refs)
      with pk show False by (auto simp: prefix_def)
    qed
  qed
  with "2.IH" [OF step] show ?case by simp
qed

lemma distinct_descendants: "distinct (map h_ref (descendants d))"
  unfolding descendants_def by (rule distinct_bfs) (simp add: antichain_def)

lemma node_at_append:
  "node_at d (p @ q) = (case node_at d p of None \<Rightarrow> None | Some x \<Rightarrow> node_at x q)"
  by (induction d p rule: node_at.induct) (auto split: option.splits)

lemma inv_tree_node_at: "inv_tree d \<Longrightarrow> node_at d p = Some x \<Longrightarrow> inv_tree x"
proof (induction d p rule: node_at.induct)
  case (1 d)
  then show ?case by simp
next
  case (2 d i r)
  then show ?case by (cases d) (auto split: option.splits if_splits simp: list_all_length)
next
  case (3 d i r)
  then show ?case by (cases d) (auto split: option.splits if_splits simp: list_all_length)
qed

lemma inv_tree_inv_node: "inv_tree d \<Longrightarrow> inv_node d"
  by (cases d) (simp add: inv_node_def)

lemma visible_root: "[] \<in> visible d"
  by (simp add: visible_iff)

lemma visible_butlast: "p @ [s] \<in> visible d \<Longrightarrow> p \<in> visible d"
proof -
  assume "p @ [s] \<in> visible d"
  then obtain "is" where eq: "p @ [s] = map Child is" and at: "node_at d (p @ [s]) \<noteq> None"
    by (auto simp: visible_iff)
  from eq have "p = map Child (butlast is)"
    by (metis butlast_snoc map_butlast)
  moreover from at have "node_at d p \<noteq> None"
    by (auto simp: node_at_append split: option.splits)
  ultimately show ?thesis by (auto simp: visible_iff)
qed

lemma visible_no_hidden_step: "Hid i \<in> set p \<Longrightarrow> p \<notin> visible d"
  by (auto simp: visible_iff)

lemma visible_child_iff:
  assumes inv: "inv_tree d" and par: "node_at d p = Some par"
    and c: "node_at d (p @ [s]) = Some c"
  shows "p @ [s] \<in> visible d \<longleftrightarrow> p \<in> visible d \<and> \<not> isCollapsed par"
proof
  assume v: "p @ [s] \<in> visible d"
  then obtain "is" where eq: "p @ [s] = map Child is" by (auto simp: visible_iff)
  then have "s \<in> set (map Child is)" by (metis in_set_conv_decomp)
  then obtain i where "s = Child i" by auto
  with c par have "children par \<noteq> None"
    by (auto simp: node_at_append split: option.splits)
  then have "\<not> isCollapsed par" by (simp add: isCollapsed_def)
  with v show "p \<in> visible d \<and> \<not> isCollapsed par" by (auto dest: visible_butlast)
next
  assume a: "p \<in> visible d \<and> \<not> isCollapsed par"
  then obtain js where p: "p = map Child js" by (auto simp: visible_iff)
  from inv par have ip: "inv_node par" by (auto dest: inv_tree_node_at inv_tree_inv_node)
  show "p @ [s] \<in> visible d"
  proof (cases s)
    case (Child i)
    with p have "p @ [s] = map Child (js @ [i])" by simp
    with c show ?thesis unfolding visible_iff by (metis option.distinct(1))
  next
    case (Hid i)
    with c par obtain hs where "hiddenChildren par = Some hs" "i < length hs"
      by (auto simp: node_at_append split: option.splits if_splits)
    with a ip show ?thesis by (auto simp: isCollapsed_def inv_node_def)
  qed
qed

lemma visible_child_parent:
  assumes par: "node_at d p = Some par" and c: "node_at d (p @ [s]) = Some c"
    and v: "p @ [s] \<in> visible d"
  shows "p \<in> visible d \<and> \<not> isCollapsed par \<and> (\<exists>i. s = Child i)"
proof -
  from v obtain "is" where eq: "p @ [s] = map Child is" by (auto simp: visible_iff)
  then have "s \<in> set (map Child is)" by (metis in_set_conv_decomp)
  then obtain i where s: "s = Child i" by auto
  with c par have "children par \<noteq> None"
    by (auto simp: node_at_append split: option.splits)
  then have "\<not> isCollapsed par" by (simp add: isCollapsed_def)
  with v s show ?thesis by (auto dest: visible_butlast)
qed

lemma visible_child_array:
  assumes c: "node_at d (p @ [Child i]) = Some c" and v: "p \<in> visible d"
  shows "p @ [Child i] \<in> visible d"
proof -
  from v obtain js where p: "p = map Child js" by (auto simp: visible_iff)
  then have "p @ [Child i] = map Child (js @ [i])" by simp
  with c show ?thesis unfolding visible_iff by (metis option.distinct(1))
qed

lemma collapsed_hides:
  assumes par: "node_at d p = Some n" and col: "isCollapsed n" and q: "q \<noteq> []"
  shows "p @ q \<notin> visible d"
proof
  assume "p @ q \<in> visible d"
  then obtain "is" where eq: "p @ q = map Child is" and at: "node_at d (p @ q) \<noteq> None"
    by (auto simp: visible_iff)
  from q obtain s r where sr: "q = s # r" by (cases q) auto
  with eq have "s \<in> set (map Child is)" by (metis in_set_conv_decomp)
  then obtain i where "s = Child i" by auto
  with at par sr have "children n \<noteq> None"
    by (auto simp: node_at_append split: option.splits)
  with col show False by (simp add: isCollapsed_def)
qed

lemma descendants_fields:
  assumes "m \<in> set (descendants d)"
  shows "node_at d (h_ref m) = Some (h_data m) \<and> h_depth m = length (h_ref m) \<and>
         h_parent m = (if h_ref m = [] then None else Some (butlast (h_ref m)))"
proof -
  from assms obtain "is" where "reach (h_root d) is = Some m" by (auto simp: set_descendants)
  from reach_fields [OF this] show ?thesis
    by (auto simp: h_root_def map_butlast)
qed

lemma links_aux:
  assumes "\<forall>m \<in> set ns. h_parent m = (if h_ref m = [] then None else Some (butlast (h_ref m)))"
  shows "concat (map (\<lambda>n. case h_parent n of None \<Rightarrow> [] | Some p \<Rightarrow> [(p, h_ref n)]) ns) =
         map (\<lambda>r. (butlast r, r)) (filter (\<lambda>r. r \<noteq> []) (map h_ref ns))"
  using assms by (induction ns) auto

lemma links_eq:
  "links d = map (\<lambda>r. (butlast r, r)) (filter (\<lambda>r. r \<noteq> []) (map h_ref (descendants d)))"
  unfolding links_def by (rule links_aux) (simp add: descendants_fields)

lemma distinct_links: "distinct (links d)"
proof -
  have "distinct (filter (\<lambda>r. r \<noteq> []) (map h_ref (descendants d)))"
    using distinct_descendants [of d] by (rule distinct_filter)
  then show ?thesis by (simp add: links_eq distinct_map inj_on_def)
qed

lemma set_links:
  "set (links d) = {(p, q). p \<in> visible d \<and> q \<in> visible d \<and> (\<exists>s. q = p @ [s])}"
proof (intro set_eqI iffI)
  fix l
  assume "l \<in> set (links d)"
  then obtain r where r: "r \<in> visible d" "r \<noteq> []" and l: "l = (butlast r, r)"
    by (auto simp: links_eq visible_def)
  from r(2) have e: "r = butlast r @ [last r]" by simp
  with r(1) have "butlast r \<in> visible d" by (metis visible_butlast)
  moreover from e have "\<exists>s. r = butlast r @ [s]" ..
  ultimately show "l \<in> {(p, q). p \<in> visible d \<and> q \<in> visible d \<and> (\<exists>s. q = p @ [s])}"
    using r l by simp
next
  fix l
  assume "l \<in> {(p, q). p \<in> visible d \<and> q \<in> visible d \<and> (\<exists>s. q = p @ [s])}"
  then obtain p s where "l = (p, p @ [s])" "p @ [s] \<in> visible d" by auto
  then show "l \<in> set (links d)"
    by (force simp: links_eq visible_def)
qed

lemma length_links: "length (links d) = length (descendants d) - 1"
proof -
  let ?rs = "map h_ref (descendants d)"
  have "[] \<in> set ?rs" using visible_root [of d] by (simp add: visible_def)
  then have "{x. x = []} \<inter> set ?rs = {[]}" by auto
  then have "length (filter (\<lambda>r. r = []) ?rs) = 1"
    using distinct_length_filter [OF distinct_descendants, of "\<lambda>r. r = []" d] by simp
  with sum_length_filter_compl [of "\<lambda>r. r = []" ?rs] show ?thesis
    by (simp add: links_eq)
qed

section \<open>Collapse, expand and the visible nodes\<close>

lemma recollapse_collapse: "recollapse d = collapse d"
  by (cases d; cases "children d") auto

lemma recollapse_fields:
  "node_id (recollapse c) = node_id c \<and> node_text (recollapse c) = node_text c \<and>
   pinned (recollapse c) = pinned c \<and> children (recollapse c) = None \<and>
   (children c \<noteq> None \<longrightarrow> hiddenChildren (recollapse c) = children c) \<and>
   (children c = None \<longrightarrow> recollapse c = c)"
  by (cases c) auto

lemma bfs_leaves: "\<forall>n \<in> set q. h_children n = [] \<Longrightarrow> bfs q = q"
  by (induction q) auto

lemma descendants_expandOne:
  assumes "hiddenChildren d = Some hs"
  shows "map h_ref (descendants (expandOne d)) = [] # map (\<lambda>k. [Child k]) [0..<length hs]"
proof -
  obtain i t p c where d: "d = Node i t p c (Some hs)" using assms by (cases d) auto
  let ?r = "h_root (expandOne d)"
  have leaves: "\<forall>n \<in> set (h_children ?r). h_children n = []"
    by (auto simp: d h_children_def h_root_def in_set_enumerate_eq recollapse_fields)
  have "descendants (expandOne d) = ?r # h_children ?r"
    by (simp add: descendants_def bfs_leaves [OF leaves])
  moreover have "map h_ref (h_children ?r) = map (\<lambda>k. [Child k]) [0..<length hs]"
    by (simp add: h_children_refs) (simp add: d h_root_def)
  ultimately show ?thesis by (simp add: h_root_def)
qed

text \<open>
  Claim C2. On a node without \<^verbatim>\<open>_children\<close>, \<^verbatim>\<open>expandOne\<close> changes nothing. On a
  node with \<^verbatim>\<open>_children\<close> it moves that array to \<^verbatim>\<open>children\<close>, and every revealed child
  keeps its id, text and pin, ends without \<^verbatim>\<open>children\<close>, has its former children in
  \<^verbatim>\<open>_children\<close> if it had any, and is unchanged otherwise. The hierarchy of the expanded
  node is the node and its direct children: one more level, nothing deeper.
\<close>

theorem expandOne_one_level:
  "(hiddenChildren d = None \<longrightarrow> expandOne d = d) \<and>
   (\<forall>hs. hiddenChildren d = Some hs \<longrightarrow>
      hiddenChildren (expandOne d) = None \<and>
      children (expandOne d) = Some (map recollapse hs) \<and>
      (\<forall>c \<in> set hs.
          node_id (recollapse c) = node_id c \<and> node_text (recollapse c) = node_text c \<and>
          pinned (recollapse c) = pinned c \<and> children (recollapse c) = None \<and>
          (children c \<noteq> None \<longrightarrow> hiddenChildren (recollapse c) = children c) \<and>
          (children c = None \<longrightarrow> recollapse c = c)) \<and>
      map h_ref (descendants (expandOne d)) = [] # map (\<lambda>k. [Child k]) [0..<length hs])"
proof (intro conjI allI impI ballI)
  assume "hiddenChildren d = None"
  then show "expandOne d = d" by (cases d) auto
next
  fix hs assume h: "hiddenChildren d = Some hs"
  then show "hiddenChildren (expandOne d) = None" by (cases d) auto
  from h show "children (expandOne d) = Some (map recollapse hs)" by (cases d) auto
  from h show "map h_ref (descendants (expandOne d)) = [] # map (\<lambda>k. [Child k]) [0..<length hs]"
    by (rule descendants_expandOne)
qed (simp_all add: recollapse_fields)

theorem expandOne_one_level_witness:
  "hiddenChildren (collapse family) =
     Some [Node ''a'' ''A'' False (Some [leaf ''g'']) None, leaf ''b''] \<and>
   children (expandOne (collapse family)) =
     Some [Node ''a'' ''A'' False None (Some [leaf ''g'']), leaf ''b''] \<and>
   map h_ref (descendants (expandOne (collapse family))) = [[], [Child 0], [Child 1]]"
proof -
  let ?hs = "[Node ''a'' ''A'' False (Some [leaf ''g'']) None, leaf ''b'']"
  have h: "hiddenChildren (collapse family) = Some ?hs" by (simp add: family_def)
  from expandOne_one_level [of "collapse family"] h
  have "children (expandOne (collapse family)) = Some (map recollapse ?hs)"
    and "map h_ref (descendants (expandOne (collapse family))) =
         [] # map (\<lambda>k. [Child k]) [0..<length ?hs]" by blast+
  with h show ?thesis by (simp add: leaf_def upt_rec)
qed

lemma content_of_collapse: "inv_node d \<Longrightarrow> content_of (collapse d) = content_of d"
  by (cases d; cases "children d") (auto simp: inv_node_def)

lemma content_of_recollapse: "inv_node d \<Longrightarrow> content_of (recollapse d) = content_of d"
  by (simp add: recollapse_collapse content_of_collapse)

lemma inv_tree_collapse: "inv_tree d \<Longrightarrow> inv_tree (collapse d)"
  by (cases d; cases "children d") auto

lemma inv_tree_recollapse: "inv_tree d \<Longrightarrow> inv_tree (recollapse d)"
  by (simp add: recollapse_collapse inv_tree_collapse)

lemma inv_tree_expandOne: "inv_tree d \<Longrightarrow> inv_tree (expandOne d)"
  by (cases d; cases "hiddenChildren d") (auto simp: list_all_iff inv_tree_recollapse)

lemma content_of_expandOne: "inv_tree d \<Longrightarrow> content_of (expandOne d) = content_of d"
  by (cases d; cases "hiddenChildren d")
     (auto simp: list_all_iff content_of_recollapse inv_tree_inv_node)

lemma inv_tree_update_at:
  assumes f: "\<And>x. inv_tree x \<Longrightarrow> inv_tree (f x)"
  shows "inv_tree d \<Longrightarrow> inv_tree (update_at r f d)"
proof (induction r arbitrary: d)
  case Nil
  then show ?case by (simp add: f)
next
  case (Cons s r)
  obtain i t pn c h where d: "d = Node i t pn c h" by (cases d)
  show ?case
  proof (cases s)
    case (Child k)
    show ?thesis
    proof (cases c)
      case None
      with d Child Cons.prems show ?thesis by simp
    next
      case (Some cs)
      with d Cons.prems have "list_all inv_tree cs" by simp
      then have "k < length cs \<Longrightarrow> list_all inv_tree (cs[k := update_at r f (cs ! k)])"
        using Cons.IH [of "cs ! k"]
        by (auto simp: list_all_length nth_list_update)
      with d Child Some Cons.prems show ?thesis by simp
    qed
  next
    case (Hid k)
    show ?thesis
    proof (cases h)
      case None
      with d Hid Cons.prems show ?thesis by simp
    next
      case (Some hs)
      with d Cons.prems have "list_all inv_tree hs" by simp
      then have "k < length hs \<Longrightarrow> list_all inv_tree (hs[k := update_at r f (hs ! k)])"
        using Cons.IH [of "hs ! k"]
        by (auto simp: list_all_length nth_list_update)
      with d Hid Some Cons.prems show ?thesis by simp
    qed
  qed
qed

lemma map_content_update:
  "k < length cs \<Longrightarrow> content_of u = content_of (cs ! k) \<Longrightarrow>
   map content_of (cs[k := u]) = map content_of cs"
  by (simp add: map_update list_update_same_conv)

lemma content_of_update_at:
  assumes f: "\<And>x. inv_tree x \<Longrightarrow> content_of (f x) = content_of x"
  shows "inv_tree d \<Longrightarrow> content_of (update_at r f d) = content_of d"
proof (induction r arbitrary: d)
  case Nil
  then show ?case by (simp add: f)
next
  case (Cons s r)
  obtain i t pn c h where d: "d = Node i t pn c h" by (cases d)
  show ?case
  proof (cases s)
    case (Child k)
    show ?thesis
    proof (cases c)
      case None
      with d Child show ?thesis by simp
    next
      case (Some cs)
      with d Cons.prems have "list_all inv_tree cs" by simp
      then have "k < length cs \<Longrightarrow> map content_of (cs[k := update_at r f (cs ! k)]) = map content_of cs"
        using Cons.IH [of "cs ! k"] by (intro map_content_update) (auto simp: list_all_length)
      with d Child Some show ?thesis by simp
    qed
  next
    case (Hid k)
    show ?thesis
    proof (cases h)
      case None
      with d Hid show ?thesis by simp
    next
      case (Some hs)
      with d Cons.prems have "list_all inv_tree hs" by simp
      then have "k < length hs \<Longrightarrow> map content_of (hs[k := update_at r f (hs ! k)]) = map content_of hs"
        using Cons.IH [of "hs ! k"] by (intro map_content_update) (auto simp: list_all_length)
      with d Hid Some show ?thesis by simp
    qed
  qed
qed

lemma toggle_click_keeps:
  assumes "inv_tree d"
  shows "inv_tree (toggle_click r d) \<and> content_of (toggle_click r d) = content_of d"
  unfolding toggle_click_def using assms
  by (auto intro!: inv_tree_update_at content_of_update_at
      simp: inv_tree_collapse inv_tree_expandOne content_of_collapse content_of_expandOne
        inv_tree_inv_node)

lemma inv_node_collapse: "inv_node (collapse d)"
  by (cases d; cases "children d") (auto simp: inv_node_def)

lemma inv_node_expandOne: "inv_node d \<Longrightarrow> inv_node (expandOne d)"
  by (cases d; cases "hiddenChildren d") (auto simp: inv_node_def)

text \<open>
  Claim C4. On a tree in which no node has both \<^verbatim>\<open>children\<close> and \<^verbatim>\<open>_children\<close>,
  \<^verbatim>\<open>collapse\<close> and \<^verbatim>\<open>expandOne\<close> keep that invariant on the node, on its children and
  on the whole tree below; both keep the content of the tree (every stored subtree, in
  order), so nothing is destroyed; \<^verbatim>\<open>collapse\<close> on a node without \<^verbatim>\<open>children\<close> changes
  nothing, and collapsing twice is collapsing once. The same holds for the whole tree
  when the toggle of any of its nodes is clicked.
\<close>

theorem collapse_expandOne_invariant:
  "inv_tree d \<Longrightarrow>
     inv_tree (collapse d) \<and> inv_tree (expandOne d) \<and>
     inv_node (collapse d) \<and> inv_node (expandOne d) \<and>
     (\<forall>c \<in> set (kids (children (expandOne d))). inv_node c) \<and>
     content_of (collapse d) = content_of d \<and>
     content_of (expandOne d) = content_of d \<and>
     (children d = None \<longrightarrow> collapse d = d) \<and>
     collapse (collapse d) = collapse d \<and>
     (\<forall>r. inv_tree (toggle_click r d) \<and> content_of (toggle_click r d) = content_of d)"
proof (intro conjI)
  assume inv: "inv_tree d"
  then show "inv_tree (collapse d)" by (rule inv_tree_collapse)
  from inv show e: "inv_tree (expandOne d)" by (rule inv_tree_expandOne)
  show "inv_node (collapse d)" by (rule inv_node_collapse)
  from inv show "inv_node (expandOne d)" by (simp add: inv_node_expandOne inv_tree_inv_node)
  from e show "\<forall>c \<in> set (kids (children (expandOne d))). inv_node c"
    by (cases "expandOne d") (auto simp: list_all_iff inv_tree_inv_node)
  from inv show "content_of (collapse d) = content_of d"
    by (simp add: content_of_collapse inv_tree_inv_node)
  from inv show "content_of (expandOne d) = content_of d" by (rule content_of_expandOne)
  show "children d = None \<longrightarrow> collapse d = d" by (cases d) auto
  show "collapse (collapse d) = collapse d" by (cases d; cases "children d") auto
  from inv show "\<forall>r. inv_tree (toggle_click r d) \<and> content_of (toggle_click r d) = content_of d"
    by (simp add: toggle_click_keeps)
qed

theorem collapse_expandOne_invariant_witness:
  "inv_tree mixed \<and> inv_tree (collapse mixed) \<and>
   inv_tree (expandOne (collapse mixed)) \<and>
   content_of (expandOne (collapse mixed)) = content_of mixed"
proof -
  have m: "inv_tree mixed" by (simp add: mixed_def leaf_def)
  have c: "inv_tree (collapse mixed)" using collapse_expandOne_invariant [OF m] by blast
  have "content_of (collapse mixed) = content_of mixed"
    using collapse_expandOne_invariant [OF m] by blast
  moreover have "inv_tree (expandOne (collapse mixed)) \<and>
      content_of (expandOne (collapse mixed)) = content_of (collapse mixed)"
    using collapse_expandOne_invariant [OF c] by blast
  ultimately show ?thesis using m c by simp
qed

text \<open>
  Claim C3 as stated fails. In \<open>family\<close> no node has \<^verbatim>\<open>_children\<close>, and after
  \<^verbatim>\<open>collapse\<close> and \<^verbatim>\<open>expandOne\<close> of the root its \<^verbatim>\<open>children\<close> array holds child \<open>a\<close>
  collapsed, which it was not before.
\<close>

theorem roundtrip_changes_children:
  "no_hidden_below family \<and> children (expandOne (collapse family)) \<noteq> children family"
  by (simp add: no_hidden_below_def family_def leaf_def)

lemma no_hidden_inv_node: "no_hidden d \<Longrightarrow> inv_node d"
  by (cases d) (simp add: inv_node_def)

lemma recollapse_id_iff: "recollapse c = c \<longleftrightarrow> children c = None"
  by (cases c) auto

lemma map_recollapse_id_iff: "map recollapse cs = cs \<longleftrightarrow> (\<forall>c \<in> set cs. children c = None)"
  using map_eq_conv [of recollapse cs id] by (simp add: recollapse_id_iff)

text \<open>
  Claim C3, amended. For a node with \<^verbatim>\<open>children\<close> and no \<^verbatim>\<open>_children\<close> below it,
  \<^verbatim>\<open>expandOne\<close> after \<^verbatim>\<open>collapse\<close> gives back the same children in the same order, with
  the same id, text, pin and content, each one re-collapsed: a child that had
  \<^verbatim>\<open>children\<close> now has them in \<^verbatim>\<open>_children\<close>. The array equals its value before the
  collapse exactly when no child had a \<^verbatim>\<open>children\<close> array.
\<close>

theorem collapse_expandOne_roundtrip:
  assumes "children d = Some cs" and "no_hidden_below d"
  shows "children (expandOne (collapse d)) = Some (map recollapse cs) \<and>
         map node_id (map recollapse cs) = map node_id cs \<and>
         map node_text (map recollapse cs) = map node_text cs \<and>
         map pinned (map recollapse cs) = map pinned cs \<and>
         map content_of (map recollapse cs) = map content_of cs \<and>
         (\<forall>c \<in> set cs. children (recollapse c) = None \<and>
            (children c \<noteq> None \<longrightarrow> hiddenChildren (recollapse c) = children c)) \<and>
         (children (expandOne (collapse d)) = children d \<longleftrightarrow> (\<forall>c \<in> set cs. children c = None))"
proof (intro conjI)
  from assms(1) show "children (expandOne (collapse d)) = Some (map recollapse cs)"
    by (cases d) auto
  then show "children (expandOne (collapse d)) = children d \<longleftrightarrow> (\<forall>c \<in> set cs. children c = None)"
    using assms(1) by (simp add: map_recollapse_id_iff)
  from assms have "\<forall>c \<in> set cs. inv_node c"
    by (auto simp: no_hidden_below_def list_all_iff no_hidden_inv_node)
  then show "map content_of (map recollapse cs) = map content_of cs"
    by (simp add: content_of_recollapse)
qed (simp_all add: recollapse_fields)

theorem collapse_expandOne_roundtrip_witness:
  "children family \<noteq> None \<and> no_hidden_below family \<and>
   map node_id (the (children (expandOne (collapse family)))) = [''a'', ''b''] \<and>
   children (expandOne (collapse (expandOne (collapse family)))) =
     children (expandOne (collapse family))"
proof -
  let ?cs = "[Node ''a'' ''A'' False (Some [leaf ''g'']) None, leaf ''b'']"
  have c: "children family = Some ?cs" by (simp add: family_def)
  have n: "no_hidden_below family" by (simp add: no_hidden_below_def family_def leaf_def)
  from collapse_expandOne_roundtrip [OF c n]
  have "children (expandOne (collapse family)) = Some (map recollapse ?cs)"
    and "map node_id (map recollapse ?cs) = map node_id ?cs" by blast+
  then show ?thesis using c n by (simp add: leaf_def family_def)
qed

text \<open>
  Claim C1. The root is visible. In a tree that satisfies the invariant, a node below
  the root, stored in either array of its parent, is visible exactly when its parent is
  visible and not collapsed. In every tree, a visible node below the root has a visible
  parent that is not collapsed and holds it in \<^verbatim>\<open>children\<close>, and every element of the
  \<^verbatim>\<open>children\<close> array of a visible node is visible; nothing below a collapsed node is
  visible, and no place reached through a \<^verbatim>\<open>_children\<close> array is. Every visible node
  has one wrapper, which wraps the node at its place, and the links are, once each, the
  pairs of a visible parent and a visible child.
\<close>

theorem flatten_visible:
  "[] \<in> visible d \<and>
   (inv_tree d \<longrightarrow>
      (\<forall>p s par c. node_at d p = Some par \<and> node_at d (p @ [s]) = Some c \<longrightarrow>
         (p @ [s] \<in> visible d \<longleftrightarrow> p \<in> visible d \<and> \<not> isCollapsed par))) \<and>
   (\<forall>p s par c. node_at d p = Some par \<and> node_at d (p @ [s]) = Some c \<and>
      p @ [s] \<in> visible d \<longrightarrow> p \<in> visible d \<and> \<not> isCollapsed par \<and> (\<exists>i. s = Child i)) \<and>
   (\<forall>p i c. node_at d (p @ [Child i]) = Some c \<and> p \<in> visible d \<longrightarrow>
      p @ [Child i] \<in> visible d) \<and>
   (\<forall>p q n. node_at d p = Some n \<and> isCollapsed n \<and> q \<noteq> [] \<longrightarrow> p @ q \<notin> visible d) \<and>
   (\<forall>p i. Hid i \<in> set p \<longrightarrow> p \<notin> visible d) \<and>
   distinct (map h_ref (descendants d)) \<and>
   (\<forall>m \<in> set (descendants d). node_at d (h_ref m) = Some (h_data m)) \<and>
   distinct (links d) \<and>
   set (links d) = {(p, q). p \<in> visible d \<and> q \<in> visible d \<and> (\<exists>s. q = p @ [s])} \<and>
   length (links d) = length (descendants d) - 1"
proof (intro conjI allI impI ballI)
  show "[] \<in> visible d" by (rule visible_root)
next
  fix p s par c
  assume "inv_tree d" and "node_at d p = Some par \<and> node_at d (p @ [s]) = Some c"
  then show "p @ [s] \<in> visible d \<longleftrightarrow> p \<in> visible d \<and> \<not> isCollapsed par"
    using visible_child_iff [of d p par s c] by blast
next
  fix p s par c
  assume "node_at d p = Some par \<and> node_at d (p @ [s]) = Some c \<and> p @ [s] \<in> visible d"
  then show "p \<in> visible d" "\<not> isCollapsed par" "\<exists>i. s = Child i"
    using visible_child_parent [of d p par s c] by blast+
next
  fix p i c
  assume "node_at d (p @ [Child i]) = Some c \<and> p \<in> visible d"
  then show "p @ [Child i] \<in> visible d" using visible_child_array [of d p i c] by blast
next
  fix p q :: "step list" and n
  assume "node_at d p = Some n \<and> isCollapsed n \<and> q \<noteq> []"
  then show "p @ q \<notin> visible d" using collapsed_hides [of d p n q] by blast
next
  fix p i
  assume "Hid i \<in> set p"
  then show "p \<notin> visible d" by (rule visible_no_hidden_step)
next
  show "distinct (map h_ref (descendants d))" by (rule distinct_descendants)
next
  fix m
  assume "m \<in> set (descendants d)"
  then show "node_at d (h_ref m) = Some (h_data m)" by (simp add: descendants_fields)
next
  show "distinct (links d)" by (rule distinct_links)
next
  show "set (links d) = {(p, q). p \<in> visible d \<and> q \<in> visible d \<and> (\<exists>s. q = p @ [s])}"
    by (rule set_links)
next
  show "length (links d) = length (descendants d) - 1" by (rule length_links)
qed

theorem flatten_visible_witness:
  "inv_tree mixed \<and> [Child 1] \<in> visible mixed \<and> [Child 1, Child 0] \<in> visible mixed \<and>
   [Child 0, Hid 0] \<notin> visible mixed \<and> distinct (links mixed)"
proof -
  have inv: "inv_tree mixed" by (simp add: mixed_def leaf_def)
  note fv = flatten_visible [of mixed]
  note c2 = fv [THEN conjunct2]
  note c3 = c2 [THEN conjunct2]
  note c6 = c3 [THEN conjunct2, THEN conjunct2, THEN conjunct2]
  note c9 = c6 [THEN conjunct2, THEN conjunct2, THEN conjunct2]
  have root: "[] \<in> visible mixed" by (rule fv [THEN conjunct1])
  have step: "p @ [s] \<in> visible mixed \<longleftrightarrow> p \<in> visible mixed \<and> \<not> isCollapsed par"
    if "node_at mixed p = Some par" "node_at mixed (p @ [s]) = Some c" for p s par c
    using c2 [THEN conjunct1, rule_format, OF inv, of p par s c] that by simp
  have hid: "p \<notin> visible mixed" if "Hid i \<in> set p" for p i
    using c6 [THEN conjunct1, rule_format, OF that] .
  have dl: "distinct (links mixed)" by (rule c9 [THEN conjunct1])
  have b: "[Child 1] \<in> visible mixed"
    using step [of "[]" _ "Child 1"] root by (simp add: mixed_def isCollapsed_def)
  have h: "[Child 1, Child 0] \<in> visible mixed"
    using step [of "[Child 1]" _ "Child 0"] b by (simp add: mixed_def isCollapsed_def)
  have g: "[Child 0, Hid 0] \<notin> visible mixed" using hid [of 0 "[Child 0, Hid 0]"] by simp
  from inv b h g dl show ?thesis by simp
qed

section \<open>Properties of the box collision force\<close>

lemma collide_pair_measured:
  assumes "m (sn_id (ns ! i)) = Some A" "m (sn_id (ns ! j)) = Some B"
  shows "collide_pair padding al m ns (i, j) =
     (if 0 < overlapX padding A B (ns ! i) (ns ! j) \<and> 0 < overlapY padding A B (ns ! i) (ns ! j)
      then if overlapX padding A B (ns ! i) (ns ! j) < overlapY padding A B (ns ! i) (ns ! j)
           then ns[i := (ns ! i)\<lparr>sn_x := sn_x (ns ! i) -
                       overlapX padding A B (ns ! i) (ns ! j) * sgn (deltaX (ns ! i) (ns ! j)) * al / 2\<rparr>,
                   j := (ns ! j)\<lparr>sn_x := sn_x (ns ! j) +
                       overlapX padding A B (ns ! i) (ns ! j) * sgn (deltaX (ns ! i) (ns ! j)) * al / 2\<rparr>]
           else ns[i := (ns ! i)\<lparr>sn_y := sn_y (ns ! i) -
                       overlapY padding A B (ns ! i) (ns ! j) * sgn (deltaY (ns ! i) (ns ! j)) * al / 2\<rparr>,
                   j := (ns ! j)\<lparr>sn_y := sn_y (ns ! j) +
                       overlapY padding A B (ns ! i) (ns ! j) * sgn (deltaY (ns ! i) (ns ! j)) * al / 2\<rparr>]
      else ns)"
  unfolding collide_pair_def Let_def overlapX_def overlapY_def deltaX_def deltaY_def
    minSepX_def minSepY_def
  by (simp only: assms option.case fst_conv snd_conv)

lemma collide_pair_unmeasured:
  "m (sn_id (ns ! i)) = None \<or> m (sn_id (ns ! j)) = None \<Longrightarrow> collide_pair padding al m ns (i, j) = ns"
  by (auto simp: collide_pair_def Let_def split: option.splits)

lemma set_pairs: "set (pairs n) = {(i, j). i < j \<and> j < n}"
  by (fastforce simp: pairs_def)

lemma distinct_rows:
  "distinct xs \<Longrightarrow> (\<forall>x \<in> set xs. distinct (g x)) \<Longrightarrow>
   distinct (concat (map (\<lambda>i. map (Pair i) (g i)) xs))"
  by (induction xs) (auto simp: distinct_map inj_on_def)

lemma distinct_pairs: "distinct (pairs n)"
  unfolding pairs_def by (rule distinct_rows) simp_all

lemma apart_strict:
  fixes d ov al :: real
  assumes "0 < ov" "0 < al"
  shows "\<bar>d\<bar> < \<bar>d + ov * sgn (or_else d (1 / 1000)) * al\<bar>"
proof -
  from assms have pos: "0 < ov * al" by simp
  consider "d = 0" | "0 < d" | "d < 0" by linarith
  then show ?thesis
  proof cases
    case 1
    then have "sgn (or_else d (1 / 1000)) = 1" by (simp add: or_else_def)
    then have "d + ov * sgn (or_else d (1 / 1000)) * al = d + ov * al" by (simp only: mult_1_right)
    moreover from 1 pos have "\<bar>d\<bar> < \<bar>d + ov * al\<bar>" by linarith
    ultimately show ?thesis by (simp only:)
  next
    case 2
    then have "sgn (or_else d (1 / 1000)) = 1" by (simp add: or_else_def)
    then have "d + ov * sgn (or_else d (1 / 1000)) * al = d + ov * al" by (simp only: mult_1_right)
    moreover from 2 pos have "\<bar>d\<bar> < \<bar>d + ov * al\<bar>" by linarith
    ultimately show ?thesis by (simp only:)
  next
    case 3
    then have "sgn (or_else d (1 / 1000)) = - 1" by (simp add: or_else_def)
    then have "d + ov * sgn (or_else d (1 / 1000)) * al = d - ov * al" by simp
    moreover from 3 pos have "\<bar>d\<bar> < \<bar>d - ov * al\<bar>" by linarith
    ultimately show ?thesis by (simp only:)
  qed
qed

lemma apart_weak:
  fixes d ov al :: real
  assumes "0 < ov" "0 \<le> al"
  shows "\<bar>d\<bar> \<le> \<bar>d + ov * sgn (or_else d (1 / 1000)) * al\<bar>"
proof (cases "al = 0")
  case True
  then show ?thesis by simp
next
  case False
  with assms have "0 < al" by simp
  with assms(1) show ?thesis using apart_strict [of ov al d] by simp
qed

lemma halves: "(b + v / 2) - (a - v / 2) = (b - a) + (v :: real)"
  by simp

text \<open>
  The step of a measured pair, on any array: the deltas, the overlaps, the move along the
  axis of the smaller overlap, and nothing else.
\<close>

lemma collide_pair_body:
  assumes ij: "i < j" "j < length ns"
    and A: "m (sn_id (ns ! i)) = Some A" and B: "m (sn_id (ns ! j)) = Some B"
  shows "distinct (pairs (length ns)) \<and> (i, j) \<in> set (pairs (length ns)) \<and>
         (let a = ns ! i; b = ns ! j;
              dx = (if sn_x b - sn_x a = 0 then 0.001 else sn_x b - sn_x a);
              dy = (if sn_y b - sn_y a = 0 then 0.001 else sn_y b - sn_y a);
              ox = (box_w A + box_w B) / 2 + padding - \<bar>dx\<bar>;
              oy = (box_h A + box_h B) / 2 + padding - \<bar>dy\<bar>;
              ns' = collide_pair padding al m ns (i, j)
          in length ns' = length ns \<and>
             (\<forall>k < length ns. k \<noteq> i \<and> k \<noteq> j \<longrightarrow> ns' ! k = ns ! k) \<and>
             (0 < ox \<and> 0 < oy \<and> ox < oy \<longrightarrow>
                ns' ! i = a\<lparr>sn_x := sn_x a - ox * sgn dx * al / 2\<rparr> \<and>
                ns' ! j = b\<lparr>sn_x := sn_x b + ox * sgn dx * al / 2\<rparr> \<and>
                (0 \<le> al \<longrightarrow> \<bar>sn_x b - sn_x a\<bar> \<le> \<bar>sn_x (ns' ! j) - sn_x (ns' ! i)\<bar>)) \<and>
             (0 < ox \<and> 0 < oy \<and> \<not> ox < oy \<longrightarrow>
                ns' ! i = a\<lparr>sn_y := sn_y a - oy * sgn dy * al / 2\<rparr> \<and>
                ns' ! j = b\<lparr>sn_y := sn_y b + oy * sgn dy * al / 2\<rparr> \<and>
                (0 \<le> al \<longrightarrow> \<bar>sn_y b - sn_y a\<bar> \<le> \<bar>sn_y (ns' ! j) - sn_y (ns' ! i)\<bar>)) \<and>
             (\<not> (0 < ox \<and> 0 < oy) \<longrightarrow> ns' = ns))"
proof -
  let ?a = "ns ! i" and ?b = "ns ! j"
  let ?ox = "overlapX padding A B ?a ?b" and ?oy = "overlapY padding A B ?a ?b"
  let ?ns' = "collide_pair padding al m ns (i, j)"
  note cp = collide_pair_measured [OF A B, of padding al]
  from ij have i: "i < length ns" and ne: "i \<noteq> j" by simp_all
  have len: "length ?ns' = length ns" by (simp add: cp)
  have other: "\<forall>k < length ns. k \<noteq> i \<and> k \<noteq> j \<longrightarrow> ?ns' ! k = ns ! k" by (simp add: cp)
  have none: "\<not> (0 < ?ox \<and> 0 < ?oy) \<longrightarrow> ?ns' = ns" by (auto simp: cp)
  have x: "?ns' ! i = ?a\<lparr>sn_x := sn_x ?a - ?ox * sgn (deltaX ?a ?b) * al / 2\<rparr> \<and>
           ?ns' ! j = ?b\<lparr>sn_x := sn_x ?b + ?ox * sgn (deltaX ?a ?b) * al / 2\<rparr> \<and>
           (0 \<le> al \<longrightarrow> \<bar>sn_x ?b - sn_x ?a\<bar> \<le> \<bar>sn_x (?ns' ! j) - sn_x (?ns' ! i)\<bar>)"
    if "0 < ?ox" "0 < ?oy" "?ox < ?oy"
  proof -
    from that i ij ne have 1: "?ns' ! i = ?a\<lparr>sn_x := sn_x ?a - ?ox * sgn (deltaX ?a ?b) * al / 2\<rparr>"
      and 2: "?ns' ! j = ?b\<lparr>sn_x := sn_x ?b + ?ox * sgn (deltaX ?a ?b) * al / 2\<rparr>"
      by (simp_all add: cp)
    have "\<bar>sn_x ?b - sn_x ?a\<bar> \<le> \<bar>sn_x (?ns' ! j) - sn_x (?ns' ! i)\<bar>" if "0 \<le> al"
      using apart_weak [OF \<open>0 < ?ox\<close> that, of "sn_x ?b - sn_x ?a"]
      by (simp add: 1 2 halves deltaX_def)
    with 1 2 show ?thesis by blast
  qed
  have y: "?ns' ! i = ?a\<lparr>sn_y := sn_y ?a - ?oy * sgn (deltaY ?a ?b) * al / 2\<rparr> \<and>
           ?ns' ! j = ?b\<lparr>sn_y := sn_y ?b + ?oy * sgn (deltaY ?a ?b) * al / 2\<rparr> \<and>
           (0 \<le> al \<longrightarrow> \<bar>sn_y ?b - sn_y ?a\<bar> \<le> \<bar>sn_y (?ns' ! j) - sn_y (?ns' ! i)\<bar>)"
    if "0 < ?ox" "0 < ?oy" "\<not> ?ox < ?oy"
  proof -
    from that i ij ne have 1: "?ns' ! i = ?a\<lparr>sn_y := sn_y ?a - ?oy * sgn (deltaY ?a ?b) * al / 2\<rparr>"
      and 2: "?ns' ! j = ?b\<lparr>sn_y := sn_y ?b + ?oy * sgn (deltaY ?a ?b) * al / 2\<rparr>"
      by (simp_all add: cp)
    have "\<bar>sn_y ?b - sn_y ?a\<bar> \<le> \<bar>sn_y (?ns' ! j) - sn_y (?ns' ! i)\<bar>" if "0 \<le> al"
      using apart_weak [OF \<open>0 < ?oy\<close> that, of "sn_y ?b - sn_y ?a"]
      by (simp add: 1 2 halves deltaY_def)
    with 1 2 show ?thesis by blast
  qed
  have pairs: "distinct (pairs (length ns)) \<and> (i, j) \<in> set (pairs (length ns))"
    using ij by (simp add: distinct_pairs set_pairs)
  from len other none x y pairs show ?thesis
    unfolding Let_def overlapX_def overlapY_def deltaX_def deltaY_def minSepX_def minSepY_def
      or_else_def
    by blast
qed

text \<open>
  Claim C10. When the two overlaps of a measured pair are equal and positive, the test
  \<^verbatim>\<open>overlapX < overlapY\<close> fails and the pair is resolved along the y axis: the x
  coordinates of both nodes stay as they are.
\<close>

theorem box_collide_tie:
  assumes ij: "i < j" "j < length ns"
    and A: "m (sn_id (ns ! i)) = Some A" and B: "m (sn_id (ns ! j)) = Some B"
    and tie: "overlapX padding A B (ns ! i) (ns ! j) = overlapY padding A B (ns ! i) (ns ! j)"
    and pos: "0 < overlapY padding A B (ns ! i) (ns ! j)"
  shows "sn_x (collide_pair padding al m ns (i, j) ! i) = sn_x (ns ! i) \<and>
         sn_x (collide_pair padding al m ns (i, j) ! j) = sn_x (ns ! j) \<and>
         sn_y (collide_pair padding al m ns (i, j) ! i) =
           sn_y (ns ! i) - overlapY padding A B (ns ! i) (ns ! j) * sgn (deltaY (ns ! i) (ns ! j)) * al / 2 \<and>
         sn_y (collide_pair padding al m ns (i, j) ! j) =
           sn_y (ns ! j) + overlapY padding A B (ns ! i) (ns ! j) * sgn (deltaY (ns ! i) (ns ! j)) * al / 2"
proof -
  from ij have "i < length ns" "i \<noteq> j" by simp_all
  with ij tie pos show ?thesis
    by (simp add: collide_pair_measured [OF A B])
qed

theorem box_collide_tie_witness:
  "overlapX 0 square square (diagonal ! 0) (diagonal ! 1) = 15 \<and>
   overlapY 0 square square (diagonal ! 0) (diagonal ! 1) = 15 \<and>
   sn_x (collide_pair 0 1 all_square diagonal (0, 1) ! 0) = 0 \<and>
   sn_x (collide_pair 0 1 all_square diagonal (0, 1) ! 1) = 5 \<and>
   sn_y (collide_pair 0 1 all_square diagonal (0, 1) ! 0) = - (15 / 2) \<and>
   sn_y (collide_pair 0 1 all_square diagonal (0, 1) ! 1) = 25 / 2"
proof -
  have o: "overlapX 0 square square (diagonal ! 0) (diagonal ! 1) = 15"
    "overlapY 0 square square (diagonal ! 0) (diagonal ! 1) = 15"
    "deltaY (diagonal ! 0) (diagonal ! 1) = 5"
    by (simp_all add: overlapX_def overlapY_def deltaX_def deltaY_def minSepX_def minSepY_def
        or_else_def diagonal_def at_xy_def square_def)
  have h: "(0 :: nat) < 1" "1 < length diagonal"
    "all_square (sn_id (diagonal ! 0)) = Some square"
    "all_square (sn_id (diagonal ! 1)) = Some square"
    by (simp_all add: diagonal_def all_square_def)
  have t: "overlapX 0 square square (diagonal ! 0) (diagonal ! 1) =
     overlapY 0 square square (diagonal ! 0) (diagonal ! 1)"
    "0 < overlapY 0 square square (diagonal ! 0) (diagonal ! 1)"
    using o by simp_all
  from box_collide_tie [OF h t, of 1] o show ?thesis
    by (simp add: diagonal_def at_xy_def)
qed

lemma collide_pair_length: "length (collide_pair padding al m ns ij) = length ns"
  by (simp add: collide_pair_def Let_def split: option.splits)

lemma collide_pair_keeps:
  assumes "m (sn_id (ns ! k)) = None"
  shows "collide_pair padding al m ns ij ! k = ns ! k"
proof (cases "fst ij = k \<or> snd ij = k")
  case True
  with assms have "collide_pair padding al m ns (fst ij, snd ij) = ns"
    by (intro collide_pair_unmeasured) auto
  then show ?thesis by simp
next
  case False
  then show ?thesis
    by (simp add: collide_pair_def Let_def split: option.splits)
qed

lemma fold_collide_keeps:
  assumes "m (sn_id (ns ! k)) = None" and "k < length ns"
  shows "fold (\<lambda>ij ns. collide_pair padding al m ns ij) ps ns ! k = ns ! k"
  using assms
proof (induction ps arbitrary: ns)
  case Nil
  show ?case by simp
next
  case (Cons ij ps)
  let ?ns = "collide_pair padding al m ns ij"
  have same: "?ns ! k = ns ! k" using Cons.prems(1) by (rule collide_pair_keeps)
  have "k < length ?ns" using Cons.prems(2) by (simp add: collide_pair_length)
  moreover have "m (sn_id (?ns ! k)) = None" using Cons.prems(1) by (simp add: same)
  ultimately have "fold (\<lambda>ij ns. collide_pair padding al m ns ij) ps ?ns ! k = ?ns ! k"
    by (rule Cons.IH [rotated])
  with same show ?case by simp
qed

lemma measure_node_none:
  "m k = None \<Longrightarrow> doc k = None \<Longrightarrow> measure_node doc m n k = None"
  by (cases "doc (sn_id n)") (auto simp: measure_node_def)

lemma fold_measure_none:
  "m k = None \<Longrightarrow> doc k = None \<Longrightarrow> fold (\<lambda>n m. measure_node doc m n) ns m k = None"
  by (induction ns arbitrary: m) (simp_all add: measure_node_none)

text \<open>
  Claim C9. If the document has no element for the id of a node and the cache holds no
  size for it, the node stays without a size after measuring, every pair with a node of
  that id is skipped (the array is returned as it is), and the node is the same after the
  whole invocation. No branch of the model is an error: the code raises nothing here.
\<close>

theorem unmeasured_pair_skipped:
  assumes k: "k < length (simNodes st)"
    and doc: "doc (sn_id (simNodes st ! k)) = None"
    and cache: "measured st (sn_id (simNodes st ! k)) = None"
  shows "measured (force padding doc al st) (sn_id (simNodes st ! k)) = None \<and>
         (\<forall>ns i j. sn_id (ns ! i) = sn_id (simNodes st ! k) \<or> sn_id (ns ! j) = sn_id (simNodes st ! k) \<longrightarrow>
            collide_pair padding al (measured (force padding doc al st)) ns (i, j) = ns) \<and>
         simNodes (force padding doc al st) ! k = simNodes st ! k"
proof -
  let ?m = "fold (\<lambda>n m. measure_node doc m n) (simNodes st) (measured st)"
  have m: "measured (force padding doc al st) = ?m" by (simp add: force_def Let_def)
  have none: "?m (sn_id (simNodes st ! k)) = None" using cache doc by (rule fold_measure_none)
  have skip: "collide_pair padding al ?m ns (i, j) = ns"
    if "sn_id (ns ! i) = sn_id (simNodes st ! k) \<or> sn_id (ns ! j) = sn_id (simNodes st ! k)"
    for ns i j
    using that none by (intro collide_pair_unmeasured) auto
  have "simNodes (force padding doc al st) ! k = simNodes st ! k"
    using fold_collide_keeps [of ?m "simNodes st" k padding al "pairs (length (simNodes st))"]
      none k by (simp add: force_def Let_def)
  with m none skip show ?thesis by simp
qed

theorem unmeasured_pair_skipped_witness:
  "measured (force 0 only_a (1 / 10) (initialize duo)) ''b'' = None \<and>
   simNodes (force 0 only_a (1 / 10) (initialize duo)) ! 1 = at_xy ''b'' 19 0"
proof -
  have h: "1 < length (simNodes (initialize duo))"
    "only_a (sn_id (simNodes (initialize duo) ! 1)) = None"
    "measured (initialize duo) (sn_id (simNodes (initialize duo) ! 1)) = None"
    by (simp_all add: initialize_def duo_def at_xy_def only_a_def)
  from unmeasured_pair_skipped [of 1 "initialize duo" only_a 0 "1 / 10"] h show ?thesis
    by (simp add: initialize_def duo_def at_xy_def)
qed

lemma force_simNodes:
  "simNodes (force padding doc al st) =
     fold (\<lambda>p ns. collide_pair padding al (measured (force padding doc al st)) ns p)
          (pairs (length (simNodes st))) (simNodes st)"
  by (simp add: force_def Let_def)

lemma fold_collide_length:
  "length (fold (\<lambda>p ns. collide_pair padding al m ns p) ps ns) = length ns"
  by (induction ps arbitrary: ns) (simp_all add: collide_pair_length)

lemma measure_node_lookup:
  "measure_node doc m n k =
     (case m k of Some b \<Rightarrow> Some b | None \<Rightarrow> if k = sn_id n then doc k else None)"
  by (cases "doc (sn_id n)"; cases "m k"; cases "m (sn_id n)") (auto simp: measure_node_def)

lemma fold_measure_lookup:
  "fold (\<lambda>n m. measure_node doc m n) ns m k =
     (case m k of Some b \<Rightarrow> Some b | None \<Rightarrow> if k \<in> sn_id ` set ns then doc k else None)"
proof (induction ns arbitrary: m)
  case Nil
  show ?case by (simp split: option.splits)
next
  case (Cons n ns)
  have "fold (\<lambda>n m. measure_node doc m n) (n # ns) m k =
        fold (\<lambda>n m. measure_node doc m n) ns (measure_node doc m n) k" by simp
  also have "\<dots> = (case measure_node doc m n k of Some b \<Rightarrow> Some b
      | None \<Rightarrow> if k \<in> sn_id ` set ns then doc k else None)" by (rule Cons.IH)
  also have "\<dots> = (case m k of Some b \<Rightarrow> Some b
      | None \<Rightarrow> if k \<in> sn_id ` set (n # ns) then doc k else None)"
    by (cases "m k"; cases "doc k") (auto simp: measure_node_lookup)
  finally show ?case .
qed

lemma measured_force:
  "measured (force padding doc al st) k =
     (case measured st k of Some b \<Rightarrow> Some b
      | None \<Rightarrow> if k \<in> sn_id ` set (simNodes st) then doc k else None)"
  by (simp add: force_def Let_def fold_measure_lookup)

text \<open>
  Claim C5. One invocation measures the nodes (a size comes from the cache or, for a node
  of the array, from the document) and then runs the step of every pair of indices
  \<open>i < j\<close> once, in the order of the loops. When the loops reach a pair whose two nodes
  have measured boxes, the step takes the centre deltas of the array as it is then, with
  0.001 in place of a zero delta, and on each axis the overlap: half the sum of the two
  extents plus the padding, minus the absolute delta. When both overlaps are positive it
  moves the two nodes along the axis of the smaller overlap, \<open>a\<close> by minus and \<open>b\<close> by
  plus \<open>overlap * sgn delta * alpha / 2\<close>, which for a non-negative \<open>alpha\<close> does not
  bring them closer; otherwise it changes nothing. No other node changes in that step,
  and the invocation goes on with the remaining pairs from the array so obtained.
\<close>

theorem force_collide_pair:
  fixes padding al :: real and doc :: "string \<rightharpoonup> box" and st :: collide_state
    and ps1 ps2 :: "(nat \<times> nat) list" and i j :: nat and A B :: box
  defines "m \<equiv> measured (force padding doc al st)"
  defines "ns \<equiv> fold (\<lambda>p ns. collide_pair padding al m ns p) ps1 (simNodes st)"
  assumes split: "pairs (length (simNodes st)) = ps1 @ (i, j) # ps2"
    and A: "m (sn_id (ns ! i)) = Some A" and B: "m (sn_id (ns ! j)) = Some B"
  shows "distinct (pairs (length (simNodes st))) \<and>
         set (pairs (length (simNodes st))) = {(i, j). i < j \<and> j < length (simNodes st)} \<and>
         (\<forall>k. m k = (case measured st k of Some b \<Rightarrow> Some b
                     | None \<Rightarrow> if k \<in> sn_id ` set (simNodes st) then doc k else None)) \<and>
         i < j \<and> j < length ns \<and>
         simNodes (force padding doc al st) =
           fold (\<lambda>p ns. collide_pair padding al m ns p) ps2 (collide_pair padding al m ns (i, j)) \<and>
         (let a = ns ! i; b = ns ! j;
              dx = (if sn_x b - sn_x a = 0 then 0.001 else sn_x b - sn_x a);
              dy = (if sn_y b - sn_y a = 0 then 0.001 else sn_y b - sn_y a);
              ox = (box_w A + box_w B) / 2 + padding - \<bar>dx\<bar>;
              oy = (box_h A + box_h B) / 2 + padding - \<bar>dy\<bar>;
              ns' = collide_pair padding al m ns (i, j)
          in length ns' = length ns \<and>
             (\<forall>k < length ns. k \<noteq> i \<and> k \<noteq> j \<longrightarrow> ns' ! k = ns ! k) \<and>
             (0 < ox \<and> 0 < oy \<and> ox < oy \<longrightarrow>
                ns' ! i = a\<lparr>sn_x := sn_x a - ox * sgn dx * al / 2\<rparr> \<and>
                ns' ! j = b\<lparr>sn_x := sn_x b + ox * sgn dx * al / 2\<rparr> \<and>
                (0 \<le> al \<longrightarrow> \<bar>sn_x b - sn_x a\<bar> \<le> \<bar>sn_x (ns' ! j) - sn_x (ns' ! i)\<bar>)) \<and>
             (0 < ox \<and> 0 < oy \<and> \<not> ox < oy \<longrightarrow>
                ns' ! i = a\<lparr>sn_y := sn_y a - oy * sgn dy * al / 2\<rparr> \<and>
                ns' ! j = b\<lparr>sn_y := sn_y b + oy * sgn dy * al / 2\<rparr> \<and>
                (0 \<le> al \<longrightarrow> \<bar>sn_y b - sn_y a\<bar> \<le> \<bar>sn_y (ns' ! j) - sn_y (ns' ! i)\<bar>)) \<and>
             (\<not> (0 < ox \<and> 0 < oy) \<longrightarrow> ns' = ns))"
proof -
  have "(i, j) \<in> set (pairs (length (simNodes st)))" by (simp add: split)
  then have ij0: "i < j" "j < length (simNodes st)" by (simp_all add: set_pairs)
  have len: "length ns = length (simNodes st)" by (simp add: ns_def fold_collide_length)
  with ij0 have ij: "i < j" "j < length ns" by simp_all
  have run: "simNodes (force padding doc al st) =
      fold (\<lambda>p ns. collide_pair padding al m ns p) ps2 (collide_pair padding al m ns (i, j))"
    by (simp add: force_simNodes [of padding doc al st] split m_def [symmetric] ns_def)
  have meas: "\<forall>k. m k = (case measured st k of Some b \<Rightarrow> Some b
      | None \<Rightarrow> if k \<in> sn_id ` set (simNodes st) then doc k else None)"
    by (simp add: m_def measured_force)
  note body = collide_pair_body [OF ij A B, of padding al, THEN conjunct2, THEN conjunct2]
  show ?thesis
    by (intro conjI) (rule distinct_pairs set_pairs meas ij run body)+
qed

lemma trio_measured:
  "measured (force 0 all_tall (1 / 10) (initialize trio)) =
     (\<lambda>k. if k \<in> {''a'', ''b'', ''c''} then Some tall else None)"
  by (rule ext) (auto simp: measured_force initialize_def all_tall_def trio_def at_xy_def)

theorem force_collide_pair_witness:
  "simNodes (force 0 all_tall (1 / 10) (initialize trio)) =
     [at_xy ''a'' (361 / 400) 0, at_xy ''b'' (381 / 20) 0, at_xy ''c'' (- (781 / 400)) 0]"
proof -
  let ?m = "measured (force 0 all_tall (1 / 10) (initialize trio))"
  let ?ns = "fold (\<lambda>p ns. collide_pair 0 (1 / 10) ?m ns p) [(0, 1)] (simNodes (initialize trio))"
  have split: "pairs (length (simNodes (initialize trio))) = [(0, 1)] @ (0, 2) # [(1, 2)]"
    by (simp add: initialize_def trio_def pairs_def upt_rec)
  have A: "?m (sn_id (?ns ! 0)) = Some tall" and B: "?m (sn_id (?ns ! 2)) = Some tall"
    unfolding trio_measured
    by (simp_all add: initialize_def trio_def at_xy_def tall_def collide_pair_def
        Let_def or_else_def)
  from force_collide_pair [OF split A B]
  have "simNodes (force 0 all_tall (1 / 10) (initialize trio)) =
      fold (\<lambda>p ns. collide_pair 0 (1 / 10) ?m ns p) [(1, 2)] (collide_pair 0 (1 / 10) ?m ?ns (0, 2))"
    by (rule conjunct2 [THEN conjunct2, THEN conjunct2, THEN conjunct2, THEN conjunct2, THEN conjunct1])
  then show ?thesis
    unfolding trio_measured
    by (simp add: initialize_def trio_def at_xy_def tall_def collide_pair_def
        Let_def or_else_def)
qed

lemma trio_force:
  "simNodes (force 0 all_tall (1 / 10) (initialize trio)) =
     [at_xy ''a'' (361 / 400) 0, at_xy ''b'' (381 / 20) 0, at_xy ''c'' (- (781 / 400)) 0]"
  by (simp add: force_def initialize_def trio_def at_xy_def tall_def all_tall_def pairs_def upt_rec
      measure_node_def collide_pair_def Let_def or_else_def)

text \<open>
  Claim C6 as stated fails. In \<open>trio\<close> the pair of \<open>a\<close> and \<open>b\<close> overlaps on both axes
  and is resolved along x, where its overlap is 1. The same invocation then resolves the
  pair of \<open>a\<close> and \<open>c\<close>, which pushes \<open>a\<close> back towards \<open>b\<close>: after the invocation the
  overlap of \<open>a\<close> and \<open>b\<close> on x is 741/400.
\<close>

theorem shared_node_overlap_grows:
  "(0 :: real) < 1 / 10 \<and>
   measured (force 0 all_tall (1 / 10) (initialize trio)) (sn_id (trio ! 0)) = Some tall \<and>
   measured (force 0 all_tall (1 / 10) (initialize trio)) (sn_id (trio ! 1)) = Some tall \<and>
   0 < overlapX 0 tall tall (trio ! 0) (trio ! 1) \<and>
   0 < overlapY 0 tall tall (trio ! 0) (trio ! 1) \<and>
   overlapX 0 tall tall (trio ! 0) (trio ! 1) < overlapY 0 tall tall (trio ! 0) (trio ! 1) \<and>
   overlap_x 0 tall tall (trio ! 0) (trio ! 1) = 1 \<and>
   overlap_x 0 tall tall (simNodes (force 0 all_tall (1 / 10) (initialize trio)) ! 0)
                         (simNodes (force 0 all_tall (1 / 10) (initialize trio)) ! 1) = 741 / 400 \<and>
   \<not> overlap_x 0 tall tall (simNodes (force 0 all_tall (1 / 10) (initialize trio)) ! 0)
                           (simNodes (force 0 all_tall (1 / 10) (initialize trio)) ! 1)
     < overlap_x 0 tall tall (trio ! 0) (trio ! 1)"
proof -
  have m: "measured (force 0 all_tall (1 / 10) (initialize trio)) (sn_id (trio ! 0)) = Some tall \<and>
           measured (force 0 all_tall (1 / 10) (initialize trio)) (sn_id (trio ! 1)) = Some tall"
    by (simp add: force_def initialize_def trio_def at_xy_def tall_def all_tall_def
        measure_node_def Let_def)
  have before: "overlapX 0 tall tall (trio ! 0) (trio ! 1) = 1"
    "overlapY 0 tall tall (trio ! 0) (trio ! 1) = 99999 / 1000"
    "overlap_x 0 tall tall (trio ! 0) (trio ! 1) = 1"
    by (simp_all add: overlapX_def overlapY_def overlap_x_def deltaX_def deltaY_def minSepX_def
        minSepY_def or_else_def trio_def at_xy_def tall_def)
  have after: "overlap_x 0 tall tall (simNodes (force 0 all_tall (1 / 10) (initialize trio)) ! 0)
      (simNodes (force 0 all_tall (1 / 10) (initialize trio)) ! 1) = 741 / 400"
    by (simp add: trio_force) (simp add: overlap_x_def at_xy_def tall_def)
  from m before after show ?thesis by simp
qed

lemma collide_pair_local:
  assumes "ns ! i = ns' ! i" "ns ! j = ns' ! j" "length ns = length ns'"
    and "i < length ns" "j < length ns" "i \<noteq> j"
  shows "collide_pair padding al m ns (i, j) ! i = collide_pair padding al m ns' (i, j) ! i \<and>
         collide_pair padding al m ns (i, j) ! j = collide_pair padding al m ns' (i, j) ! j"
proof (cases "m (sn_id (ns ! i))")
  case None
  with assms show ?thesis by (simp add: collide_pair_unmeasured)
next
  case A: (Some A)
  show ?thesis
  proof (cases "m (sn_id (ns ! j))")
    case None
    with assms show ?thesis by (simp add: collide_pair_unmeasured)
  next
    case B: (Some B)
    from A B assms have A': "m (sn_id (ns' ! i)) = Some A" and B': "m (sn_id (ns' ! j)) = Some B"
      by simp_all
    from assms show ?thesis
      by (simp add: collide_pair_measured [OF A B] collide_pair_measured [OF A' B'])
  qed
qed

lemma undisturbed_result:
  assumes "i < j" "j < length ns" "distinct ps" "undisturbed padding al m i j ps ns"
  shows "fold (\<lambda>p ns. collide_pair padding al m ns p) ps ns ! i =
           (if (i, j) \<in> set ps then collide_pair padding al m ns (i, j) ! i else ns ! i) \<and>
         fold (\<lambda>p ns. collide_pair padding al m ns p) ps ns ! j =
           (if (i, j) \<in> set ps then collide_pair padding al m ns (i, j) ! j else ns ! j)"
  using assms
proof (induction ps arbitrary: ns)
  case Nil
  show ?case by simp
next
  case (Cons p ps)
  let ?n1 = "collide_pair padding al m ns p"
  have len: "length ?n1 = length ns" by (simp add: collide_pair_length)
  from Cons.prems have d: "distinct ps" "p \<notin> set ps" and u: "undisturbed padding al m i j ps ?n1"
    by simp_all
  from Cons.prems len have j1: "j < length ?n1" by simp
  note IH = Cons.IH [OF Cons.prems(1) j1 d(1) u]
  show ?case
  proof (cases "p = (i, j)")
    case True
    with d have "(i, j) \<notin> set ps" by simp
    with IH True show ?thesis by simp
  next
    case False
    with Cons.prems have same: "?n1 ! i = ns ! i" "?n1 ! j = ns ! j" by simp_all
    from Cons.prems have "i < length ns" "i \<noteq> j" by simp_all
    with same len Cons.prems(2)
    have "collide_pair padding al m ?n1 (i, j) ! i = collide_pair padding al m ns (i, j) ! i \<and>
          collide_pair padding al m ?n1 (i, j) ! j = collide_pair padding al m ns (i, j) ! j"
      by (intro collide_pair_local) simp_all
    with IH False same show ?thesis by simp
  qed
qed

lemma pair_step_not_larger:
  assumes ij: "i < j" "j < length ns"
    and A: "m (sn_id (ns ! i)) = Some A" and B: "m (sn_id (ns ! j)) = Some B"
    and al: "0 \<le> al"
  shows "overlap_x padding A B (collide_pair padding al m ns (i, j) ! i)
                               (collide_pair padding al m ns (i, j) ! j)
         \<le> overlap_x padding A B (ns ! i) (ns ! j) \<and>
         overlap_y padding A B (collide_pair padding al m ns (i, j) ! i)
                               (collide_pair padding al m ns (i, j) ! j)
         \<le> overlap_y padding A B (ns ! i) (ns ! j)"
proof -
  let ?a = "ns ! i" and ?b = "ns ! j"
  let ?ox = "overlapX padding A B ?a ?b" and ?oy = "overlapY padding A B ?a ?b"
  from ij have i: "i < length ns" "i \<noteq> j" by simp_all
  consider "\<not> (0 < ?ox \<and> 0 < ?oy)" | "0 < ?ox" "0 < ?oy" "?ox < ?oy"
    | "0 < ?ox" "0 < ?oy" "\<not> ?ox < ?oy" by blast
  then show ?thesis
  proof cases
    case 1
    then have "collide_pair padding al m ns (i, j) = ns" by (auto simp: collide_pair_measured [OF A B])
    then show ?thesis by simp
  next
    case 2
    have "\<bar>sn_x ?b - sn_x ?a\<bar> \<le> \<bar>sn_x ?b - sn_x ?a + ?ox * sgn (or_else (sn_x ?b - sn_x ?a) (1 / 1000)) * al\<bar>"
      using 2(1) al by (rule apart_weak)
    with 2 i ij show ?thesis
      by (simp add: collide_pair_measured [OF A B] overlap_x_def overlap_y_def halves deltaX_def)
  next
    case 3
    have "\<bar>sn_y ?b - sn_y ?a\<bar> \<le> \<bar>sn_y ?b - sn_y ?a + ?oy * sgn (or_else (sn_y ?b - sn_y ?a) (1 / 1000)) * al\<bar>"
      using 3(2) al by (rule apart_weak)
    with 3 i ij show ?thesis
      by (simp add: collide_pair_measured [OF A B] overlap_x_def overlap_y_def halves deltaY_def)
  qed
qed

text \<open>
  Claim C6, amended. For a pair with measured boxes and a positive \<open>alpha\<close>, if during
  the invocation no other pair moves either of its two nodes, then after the invocation
  the two nodes are where the step of their own pair has put them, and the overlap of
  the pair is not larger than before, on the chosen axis and on the other one. That it
  is strictly smaller is not stated: the code computes in doubles, where a move smaller
  than the spacing of the numbers leaves a position as it is.
\<close>

theorem pair_overlap_not_larger:
  fixes padding al :: real and doc :: "string \<rightharpoonup> box" and st :: collide_state
    and i j :: nat and A B :: box
  defines "m \<equiv> measured (force padding doc al st)"
  assumes ij: "i < j" "j < length (simNodes st)"
    and A: "m (sn_id (simNodes st ! i)) = Some A" and B: "m (sn_id (simNodes st ! j)) = Some B"
    and al: "0 < al"
    and und: "undisturbed padding al m i j (pairs (length (simNodes st))) (simNodes st)"
  shows "simNodes (force padding doc al st) ! i = collide_pair padding al m (simNodes st) (i, j) ! i \<and>
         simNodes (force padding doc al st) ! j = collide_pair padding al m (simNodes st) (i, j) ! j \<and>
         overlap_x padding A B (simNodes (force padding doc al st) ! i)
                               (simNodes (force padding doc al st) ! j)
           \<le> overlap_x padding A B (simNodes st ! i) (simNodes st ! j) \<and>
         overlap_y padding A B (simNodes (force padding doc al st) ! i)
                               (simNodes (force padding doc al st) ! j)
           \<le> overlap_y padding A B (simNodes st ! i) (simNodes st ! j)"
proof -
  have mem: "(i, j) \<in> set (pairs (length (simNodes st)))" using ij by (simp add: set_pairs)
  have run: "simNodes (force padding doc al st) =
      fold (\<lambda>p ns. collide_pair padding al m ns p) (pairs (length (simNodes st))) (simNodes st)"
    by (simp add: m_def force_simNodes [of padding doc al st])
  from undisturbed_result [OF ij distinct_pairs und] mem
  have pos: "simNodes (force padding doc al st) ! i = collide_pair padding al m (simNodes st) (i, j) ! i"
    "simNodes (force padding doc al st) ! j = collide_pair padding al m (simNodes st) (i, j) ! j"
    by (simp_all add: run)
  from al have "0 \<le> al" by simp
  from pair_step_not_larger [OF ij A B this, of padding] pos show ?thesis by simp
qed

lemma trio_far_measured:
  "measured (force 0 all_tall (1 / 10) (initialize trio_far)) =
     (\<lambda>k. if k \<in> {''a'', ''b'', ''c''} then Some tall else None)"
  by (rule ext) (auto simp: measured_force initialize_def all_tall_def trio_far_def at_xy_def)

theorem pair_overlap_not_larger_witness:
  "simNodes (force 0 all_tall (1 / 10) (initialize trio_far)) ! 0 = at_xy ''a'' (- (1 / 20)) 0 \<and>
   simNodes (force 0 all_tall (1 / 10) (initialize trio_far)) ! 2 = at_xy ''b'' (381 / 20) 0 \<and>
   overlap_x 0 tall tall (simNodes (force 0 all_tall (1 / 10) (initialize trio_far)) ! 0)
                         (simNodes (force 0 all_tall (1 / 10) (initialize trio_far)) ! 2)
     \<le> overlap_x 0 tall tall (trio_far ! 0) (trio_far ! 2)"
proof -
  let ?st = "initialize trio_far"
  let ?m = "measured (force 0 all_tall (1 / 10) ?st)"
  have ij: "(0 :: nat) < 2" "2 < length (simNodes ?st)" by (simp_all add: initialize_def trio_far_def)
  have A: "?m (sn_id (simNodes ?st ! 0)) = Some tall" and B: "?m (sn_id (simNodes ?st ! 2)) = Some tall"
    unfolding trio_far_measured
    by (simp_all add: initialize_def trio_far_def at_xy_def)
  have al: "(0 :: real) < 1 / 10" by simp
  have und: "undisturbed 0 (1 / 10) ?m 0 2 (pairs (length (simNodes ?st))) (simNodes ?st)"
    unfolding trio_far_measured
    by (simp add: initialize_def trio_far_def pairs_def upt_rec at_xy_def tall_def
        collide_pair_def Let_def or_else_def)
  note t = pair_overlap_not_larger [OF ij A B al und]
  have step: "collide_pair 0 (1 / 10) ?m (simNodes ?st) (0, 2) =
      [at_xy ''a'' (- (1 / 20)) 0, at_xy ''c'' 300 0, at_xy ''b'' (381 / 20) 0]"
    unfolding trio_far_measured
    by (simp add: initialize_def trio_far_def at_xy_def tall_def
        collide_pair_def Let_def or_else_def)
  from t have "simNodes (force 0 all_tall (1 / 10) ?st) ! 0 = at_xy ''a'' (- (1 / 20)) 0"
    "simNodes (force 0 all_tall (1 / 10) ?st) ! 2 = at_xy ''b'' (381 / 20) 0"
    by (simp_all add: step)
  moreover from t have "overlap_x 0 tall tall (simNodes (force 0 all_tall (1 / 10) ?st) ! 0)
      (simNodes (force 0 all_tall (1 / 10) ?st) ! 2)
      \<le> overlap_x 0 tall tall (simNodes ?st ! 0) (simNodes ?st ! 2)" by blast
  ultimately show ?thesis by (simp add: initialize_def)
qed

section \<open>Properties of the configuration\<close>

text \<open>
  Claim C7 at the failing input. With no options given, the resolved \<^verbatim>\<open>opts\<close> hold the
  documented defaults and the simulation is built from them, but the container is selected
  from \<^verbatim>\<open>options.container\<close>, which is absent: the default \<^verbatim>\<open>"body"\<close> is never read and
  the call fails instead of rendering into the body.
\<close>

theorem container_default_not_used:
  "container (resolve_opts no_options) = ''body'' \<and>
   select_argument no_options = None \<and>
   render_target page no_options = Inl TypeError \<and>
   simulation_settings no_options =
     \<lparr>collision_padding = 40, link_distance = 120, link_strength = 0.2,
      many_body_strength = - 500, center_strength = 0.1, x_strength = 0.01,
      y_strength = 0.01, alpha_decay = 0.02, velocity_decay = 0.4, bounds_padding = 10\<rparr>"
  by (simp add: resolve_opts_def no_options_def select_argument_def render_target_def
      simulation_settings_def spread_def)

lemma omitted_option_defaults:
  "(opt_margin options = None \<longrightarrow> collision_padding (simulation_settings options) = 40) \<and>
   (opt_linkDistance options = None \<longrightarrow> link_distance (simulation_settings options) = 120) \<and>
   (opt_linkStrength options = None \<longrightarrow> link_strength (simulation_settings options) = 0.2) \<and>
   (opt_charge options = None \<longrightarrow> many_body_strength (simulation_settings options) = - 500) \<and>
   (opt_centerStrength options = None \<longrightarrow> center_strength (simulation_settings options) = 0.1) \<and>
   (opt_xStrength options = None \<longrightarrow> x_strength (simulation_settings options) = 0.01) \<and>
   (opt_yStrength options = None \<longrightarrow> y_strength (simulation_settings options) = 0.01) \<and>
   (opt_alphaDecay options = None \<longrightarrow> alpha_decay (simulation_settings options) = 0.02) \<and>
   (opt_velocityDecay options = None \<longrightarrow> velocity_decay (simulation_settings options) = 0.4) \<and>
   (opt_boundsPadding options = None \<longrightarrow> bounds_padding (simulation_settings options) = 10) \<and>
   (opt_container options = None \<longrightarrow>
      container (resolve_opts options) = ''body'' \<and> select_argument options = None \<and>
      render_target page options = Inl TypeError)"
  by (simp add: resolve_opts_def select_argument_def render_target_def
      simulation_settings_def spread_def)

section \<open>Properties of the double click on the background\<close>

lemma unpin_fields [simp]:
  "pinned (unpin d) = False" "children (unpin d) = children d"
  "hiddenChildren (unpin d) = hiddenChildren d"
  by (cases d; simp)+

lemma node_at_unpin_below: "node_at (unpin d) (s # r) = node_at d (s # r)"
  by (cases s) simp_all

lemma rel_same:
  "(p = q \<longrightarrow> node_at d p = None) \<Longrightarrow>
   rel_option (\<lambda>x y. pinned y = (p \<noteq> q \<and> pinned x)) (node_at d p) (node_at d p)"
  by (cases "node_at d p") auto

lemma node_at_update_unpin:
  "rel_option (\<lambda>x y. pinned y = (p \<noteq> q \<and> pinned x))
     (node_at d p) (node_at (update_at q unpin d) p)"
proof (induction q arbitrary: d p)
  case Nil
  show ?case
  proof (cases p)
    case Nil
    then show ?thesis by simp
  next
    case (Cons s r)
    then show ?thesis by (simp add: node_at_unpin_below option.rel_refl del: node_at.simps)
  qed
next
  case (Cons s r)
  obtain i t pn c h where d: "d = Node i t pn c h" by (cases d)
  show ?case
  proof (cases s)
    case (Child k)
    show ?thesis
    proof (cases "\<exists>cs. c = Some cs \<and> k < length cs")
      case False
      with d Child have "update_at (s # r) unpin d = d" by (cases c) auto
      moreover from False d Child have "node_at d (s # r) = None" by (cases c) auto
      ultimately show ?thesis by (auto intro!: rel_same)
    next
      case True
      then obtain cs where cs: "c = Some cs" "k < length cs" by blast
      show ?thesis
      proof (cases p)
        case Nil
        with d Child cs show ?thesis by simp
      next
        case (Cons s' p')
        show ?thesis
        proof (cases "s' = s")
          case True
          with Cons.IH [of p' "cs ! k"] d Child cs Cons show ?thesis by simp
        next
          case False
          with d Child cs Cons show ?thesis
            by (cases s') (auto simp: option.rel_refl split: option.splits)
        qed
      qed
    qed
  next
    case (Hid k)
    show ?thesis
    proof (cases "\<exists>hs. h = Some hs \<and> k < length hs")
      case False
      with d Hid have "update_at (s # r) unpin d = d" by (cases h) auto
      moreover from False d Hid have "node_at d (s # r) = None" by (cases h) auto
      ultimately show ?thesis by (auto intro!: rel_same)
    next
      case True
      then obtain hs where hs: "h = Some hs" "k < length hs" by blast
      show ?thesis
      proof (cases p)
        case Nil
        with d Hid hs show ?thesis by simp
      next
        case (Cons s' p')
        show ?thesis
        proof (cases "s' = s")
          case True
          with Cons.IH [of p' "hs ! k"] d Hid hs Cons show ?thesis by simp
        next
          case False
          with d Hid hs Cons show ?thesis
            by (cases s') (auto simp: option.rel_refl split: option.splits)
        qed
      qed
    qed
  qed
qed

lemma node_at_fold_unpin:
  "rel_option (\<lambda>x y. pinned y = (p \<notin> sn_ref ` set ns \<and> pinned x))
     (node_at d p) (node_at (fold (\<lambda>n d. update_at (sn_ref n) unpin d) ns d) p)"
proof (induction ns arbitrary: d)
  case Nil
  show ?case by (simp add: option.rel_refl)
next
  case (Cons n ns)
  let ?d = "update_at (sn_ref n) unpin d"
  from node_at_update_unpin [of p "sn_ref n" d] Cons.IH [of ?d]
  show ?case
    by (cases "node_at d p"; cases "node_at ?d p";
        cases "node_at (fold (\<lambda>n d. update_at (sn_ref n) unpin d) ns ?d) p") auto
qed

lemma visible_fold_unpin:
  "visible (fold (\<lambda>n d. update_at (sn_ref n) unpin d) ns d) = visible d"
proof -
  have "node_at (fold (\<lambda>n d. update_at (sn_ref n) unpin d) ns d) p = None \<longleftrightarrow> node_at d p = None"
    for p
    using node_at_fold_unpin [of p ns d]
    by (cases "node_at d p"; cases "node_at (fold (\<lambda>n d. update_at (sn_ref n) unpin d) ns d) p") auto
  then show ?thesis by (auto simp: visible_iff)
qed

text \<open>
  What the handler reaches. A double click outside every node element, on a render whose
  node array is the hierarchy of the tree, sets the energy to 0.4 and restarts the
  simulation, and leaves every node of the array, that is every visible node of the tree,
  with \<^verbatim>\<open>pinned\<close> false and without a fixed position. The set of visible nodes is the
  same afterwards.
\<close>

lemma dblclick_unpins_rendered:
  assumes bg: "\<not> isNode ev" and r: "rendered s"
  shows "sim_alpha (container_dblclick ev s) = 0.4 \<and>
         sim_running (container_dblclick ev s) \<and>
         map sn_ref (nodes (container_dblclick ev s)) = map sn_ref (nodes s) \<and>
         visible (tree (container_dblclick ev s)) = visible (tree s) \<and>
         (\<forall>n \<in> set (nodes (container_dblclick ev s)).
            sn_fx n = None \<and> sn_fy n = None \<and>
            (\<exists>d. node_at (tree (container_dblclick ev s)) (sn_ref n) = Some d \<and> \<not> pinned d)) \<and>
         (\<forall>p \<in> visible (tree s).
            \<exists>d. node_at (tree (container_dblclick ev s)) p = Some d \<and> \<not> pinned d)"
proof -
  let ?t = "fold (\<lambda>n d. update_at (sn_ref n) unpin d) (nodes s) (tree s)"
  from bg have s': "container_dblclick ev s =
      s\<lparr>tree := ?t, nodes := map release_node (nodes s), sim_alpha := 0.4, sim_running := True\<rparr>"
    by (simp add: container_dblclick_def)
  from r have refs: "sn_ref ` set (nodes s) = visible (tree s)"
    unfolding rendered_def visible_def by (metis set_map)
  have unp: "\<exists>d. node_at ?t p = Some d \<and> \<not> pinned d" if "p \<in> visible (tree s)" for p
  proof -
    from that have "node_at (tree s) p \<noteq> None" by (auto simp: visible_iff)
    with node_at_fold_unpin [of p "nodes s" "tree s"] that refs show ?thesis
      by (cases "node_at (tree s) p"; cases "node_at ?t p") auto
  qed
  have "\<forall>n \<in> set (map release_node (nodes s)).
      sn_fx n = None \<and> sn_fy n = None \<and> (\<exists>d. node_at ?t (sn_ref n) = Some d \<and> \<not> pinned d)"
  proof
    fix n assume "n \<in> set (map release_node (nodes s))"
    then obtain n0 where n0: "n0 \<in> set (nodes s)" "n = release_node n0" by auto
    then have "sn_ref n \<in> visible (tree s)" using refs by (auto simp: release_node_def)
    with unp n0 show "sn_fx n = None \<and> sn_fy n = None \<and>
        (\<exists>d. node_at ?t (sn_ref n) = Some d \<and> \<not> pinned d)"
      by (simp add: release_node_def)
  qed
  with unp show ?thesis
    by (simp add: s' visible_fold_unpin release_node_def comp_def)
qed

lemma rendered_pinned_pair: "rendered pinned_pair"
  by (simp add: rendered_def pinned_pair_def descendants_def h_root_def h_children_def)

lemma dblclick_unpins_rendered_example:
  "\<not> isNode background \<and> rendered pinned_pair \<and>
   sim_alpha (container_dblclick background pinned_pair) = 0.4 \<and>
   map sn_fx (nodes (container_dblclick background pinned_pair)) = [None, None, None] \<and>
   map sn_fy (nodes (container_dblclick background pinned_pair)) = [None, None, None] \<and>
   map (\<lambda>n. map_option pinned (node_at (tree (container_dblclick background pinned_pair)) (sn_ref n)))
       (nodes (container_dblclick background pinned_pair)) = [Some False, Some False, Some False]"
proof -
  have bg: "\<not> isNode background" by (simp add: isNode_def background_def)
  note t = dblclick_unpins_rendered [OF bg rendered_pinned_pair]
  let ?s = "container_dblclick background pinned_pair"
  from t have al: "sim_alpha ?s = 0.4" by blast
  from t have refs: "map sn_ref (nodes ?s) = [[], [Child 0], [Child 1]]"
    by (simp add: pinned_pair_def)
  then obtain n0 n1 n2 where ns: "nodes ?s = [n0, n1, n2]"
    and r: "sn_ref n0 = []" "sn_ref n1 = [Child 0]" "sn_ref n2 = [Child 1]"
    by (auto simp: map_eq_Cons_conv)
  from t have "\<forall>n \<in> set (nodes ?s). sn_fx n = None \<and> sn_fy n = None \<and>
      (\<exists>d. node_at (tree ?s) (sn_ref n) = Some d \<and> \<not> pinned d)" by blast
  with ns have "map sn_fx (nodes ?s) = [None, None, None]"
    "map sn_fy (nodes ?s) = [None, None, None]"
    "map (\<lambda>n. map_option pinned (node_at (tree ?s) (sn_ref n))) (nodes ?s) =
       [Some False, Some False, Some False]"
    by auto
  with bg rendered_pinned_pair al show ?thesis by simp
qed

lemma dblclick_on_node_ignored: "isNode ev \<Longrightarrow> container_dblclick ev s = s"
  by (simp add: container_dblclick_def)

lemma dragended_tree:
  "tree (dragended active k s) = update_at (sn_ref (nodes s ! k)) pin (tree s)"
  by (simp add: dragended_def Let_def)

lemma dragended_ref_nth: "sn_ref (nodes (dragended active k s) ! i) = sn_ref (nodes s ! i)"
proof (cases "k < length (nodes s)")
  case True
  then show ?thesis by (simp add: dragended_def Let_def nth_list_update)
next
  case False
  then have "length (nodes s) \<le> k" by simp
  then show ?thesis by (simp add: dragended_def Let_def list_update_beyond)
qed

text \<open>
  Claim C8 at the failing input. In a render of \<open>open_tree\<close> the nodes \<open>h\<close>, \<open>a\<close> and
  \<open>b\<close> are dragged, which pins them, and \<open>b\<close> is collapsed: this is the tree of
  \<open>pinned_pair\<close>, whose render holds the root, \<open>a\<close> and \<open>b\<close>. A double click on the
  background unpins \<open>a\<close> and \<open>b\<close>, but \<open>h\<close>, hidden below \<open>b\<close>, is not in the node array
  and keeps \<^verbatim>\<open>pinned\<close> true; it is still pinned when \<open>b\<close> is expanded again.
\<close>

theorem hidden_pin_survives_dblclick:
  "rendered all_open \<and>
   tree pinned_pair =
     toggle_click [Child 1]
       (tree (dragended False 2 (dragended False 1 (dragended False 3 all_open)))) \<and>
   rendered pinned_pair \<and>
   \<not> isNode background \<and>
   node_at (tree pinned_pair) [Child 1, Hid 0] = Some (Node ''h'' ''H'' True None None) \<and>
   node_at (tree (container_dblclick background pinned_pair)) [Child 0] =
     Some (Node ''a'' ''A'' False None None) \<and>
   node_at (tree (container_dblclick background pinned_pair)) [Child 1, Hid 0] =
     Some (Node ''h'' ''H'' True None None) \<and>
   node_at (toggle_click [Child 1] (tree (container_dblclick background pinned_pair)))
     [Child 1, Child 0] = Some (Node ''h'' ''H'' True None None)"
proof -
  have 1: "rendered all_open"
    by (simp add: rendered_def all_open_def open_tree_def descendants_def h_root_def h_children_def)
  have t2: "tree (dragended False 2 (dragended False 1 (dragended False 3 all_open))) =
      Node ''root'' ''X'' False
        (Some [Node ''a'' ''A'' True None None,
               Node ''b'' ''B'' True (Some [Node ''h'' ''H'' True None None]) None]) None"
    by (simp add: dragended_tree dragended_ref_nth) (simp add: all_open_def open_tree_def)
  have 2: "tree pinned_pair =
     toggle_click [Child 1]
       (tree (dragended False 2 (dragended False 1 (dragended False 3 all_open))))"
    by (subst t2) (simp add: pinned_pair_def toggle_click_def)
  have 3: "\<not> isNode background" by (simp add: isNode_def background_def)
  have 4: "tree (container_dblclick background pinned_pair) =
      Node ''root'' ''X'' False
        (Some [Node ''a'' ''A'' False None None,
               Node ''b'' ''B'' False None (Some [Node ''h'' ''H'' True None None])]) None"
    by (simp add: container_dblclick_def isNode_def background_def pinned_pair_def)
  have 5: "node_at (tree pinned_pair) [Child 1, Hid 0] = Some (Node ''h'' ''H'' True None None)"
    by (simp add: pinned_pair_def)
  have 6: "node_at (tree (container_dblclick background pinned_pair)) [Child 0] =
      Some (Node ''a'' ''A'' False None None)"
    by (subst 4) simp
  have 7: "node_at (tree (container_dblclick background pinned_pair)) [Child 1, Hid 0] =
      Some (Node ''h'' ''H'' True None None)"
    by (subst 4) simp
  have 8: "node_at (toggle_click [Child 1] (tree (container_dblclick background pinned_pair)))
      [Child 1, Child 0] = Some (Node ''h'' ''H'' True None None)"
    by (subst 4) (simp add: toggle_click_def)
  show ?thesis
    by (intro conjI) (rule 1 2 rendered_pinned_pair 3 5 6 7 8)+
qed

end
